theory Spec2Isabelle
  imports Complex_Main "HOL-Library.AList" "HOL-Library.Sublist" "HOL-Library.Product_Lexorder"
    "HOL-Library.Multiset"
begin

section \<open>The sequence matcher behind the similarity score\<close>

text \<open>
  \<^verbatim>\<open>fuzzy_match_columns\<close> scores a pair of names with
  \<^verbatim>\<open>difflib.SequenceMatcher(None, a, b).ratio()\<close>. The matcher is embedded here as
  the standard library defines it for \<^verbatim>\<open>isjunk=None\<close> and \<^verbatim>\<open>autojunk=True\<close>:
  \<^verbatim>\<open>__chain_b\<close>, \<^verbatim>\<open>find_longest_match\<close>, \<^verbatim>\<open>get_matching_blocks\<close> and
  \<^verbatim>\<open>ratio\<close>. Indices are natural numbers; the score, a Python float, is the exact
  rational \<open>2 * M / T\<close>.
\<close>

text \<open>
  \<^verbatim>\<open>for i, elt in enumerate(b): indices = b2j.setdefault(elt, []); indices.append(i)\<close>
\<close>

fun enumerate_b2j :: "nat \<Rightarrow> 'a list \<Rightarrow> ('a \<rightharpoonup> nat list) \<Rightarrow> ('a \<rightharpoonup> nat list)" where
  "enumerate_b2j i [] b2j = b2j"
| "enumerate_b2j i (elt # rest) b2j =
     enumerate_b2j (Suc i) rest
       (b2j(elt \<mapsto> (case b2j elt of None \<Rightarrow> [] | Some indices \<Rightarrow> indices) @ [i]))"

text \<open>
  With \<^verbatim>\<open>isjunk=None\<close> the junk set stays empty. The popular elements (more than
  \<open>n div 100 + 1\<close> occurrences in a \<open>b\<close> of at least 200 elements) are deleted from
  \<open>b2j\<close>.
\<close>

definition bjunk :: "'a set" where
  "bjunk = {}"

definition isbjunk :: "'a \<Rightarrow> bool" where
  "isbjunk elt = (elt \<in> bjunk)"

definition chain_b :: "'a list \<Rightarrow> ('a \<rightharpoonup> nat list)" where
  "chain_b b =
     (let b2j = enumerate_b2j 0 b Map.empty;
          n = length b
      in if n \<ge> 200 then
           (let ntest = n div 100 + 1
            in (\<lambda>elt. case b2j elt of
                          None \<Rightarrow> None
                        | Some idxs \<Rightarrow> if length idxs > ntest then None else Some idxs))
         else b2j)"

text \<open>
  The inner loop of \<^verbatim>\<open>find_longest_match\<close>, over the positions \<open>j\<close> of \<open>a[i]\<close> in
  \<open>b\<close>: \<^verbatim>\<open>continue\<close> below \<open>blo\<close>, \<^verbatim>\<open>break\<close> from \<open>bhi\<close> on. Python's
  \<^verbatim>\<open>j2len.get(j-1, 0)\<close> at \<open>j = 0\<close> asks for the key \<open>-1\<close>, which is never present.
\<close>

fun scan_js ::
  "nat \<Rightarrow> nat \<Rightarrow> nat \<Rightarrow> (nat \<rightharpoonup> nat) \<Rightarrow> nat list \<Rightarrow>
   (nat \<rightharpoonup> nat) \<times> nat \<times> nat \<times> nat \<Rightarrow> (nat \<rightharpoonup> nat) \<times> nat \<times> nat \<times> nat" where
  "scan_js i blo bhi j2len [] st = st"
| "scan_js i blo bhi j2len (j # js) (newj2len, besti, bestj, bestsize) =
     (if j < blo then scan_js i blo bhi j2len js (newj2len, besti, bestj, bestsize)
      else if j \<ge> bhi then (newj2len, besti, bestj, bestsize)
      else
        (let k = (if j = 0 then 0 else (case j2len (j - 1) of None \<Rightarrow> 0 | Some l \<Rightarrow> l)) + 1
         in if k > bestsize
            then scan_js i blo bhi j2len js (newj2len(j \<mapsto> k), i + 1 - k, j + 1 - k, k)
            else scan_js i blo bhi j2len js (newj2len(j \<mapsto> k), besti, bestj, bestsize)))"

text \<open>The outer loop, \<^verbatim>\<open>for i in range(alo, ahi)\<close>, with \<^verbatim>\<open>b2j.get(a[i], nothing)\<close>.\<close>

fun scan_is ::
  "'a list \<Rightarrow> ('a \<rightharpoonup> nat list) \<Rightarrow> nat \<Rightarrow> nat \<Rightarrow> nat list \<Rightarrow>
   (nat \<rightharpoonup> nat) \<times> nat \<times> nat \<times> nat \<Rightarrow> nat \<times> nat \<times> nat" where
  "scan_is a b2j blo bhi [] (j2len, best) = best"
| "scan_is a b2j blo bhi (i # is) (j2len, best) =
     (case scan_js i blo bhi j2len (case b2j (a ! i) of None \<Rightarrow> [] | Some js \<Rightarrow> js)
             (Map.empty, best) of
        (newj2len, best') \<Rightarrow> scan_is a b2j blo bhi is (newj2len, best'))"

text \<open>
  The four \<^verbatim>\<open>while\<close> loops that extend the best block: first by elements that are not
  junk, then by junk, downwards and upwards. \<open>want\<close> is the test on \<open>b\<close>'s element.
\<close>

function extend_lo ::
  "('a \<Rightarrow> bool) \<Rightarrow> 'a list \<Rightarrow> 'a list \<Rightarrow> nat \<Rightarrow> nat \<Rightarrow> nat \<times> nat \<times> nat \<Rightarrow> nat \<times> nat \<times> nat" where
  "extend_lo want a b alo blo (besti, bestj, bestsize) =
     (if besti > alo \<and> bestj > blo \<and> want (b ! (bestj - 1)) \<and> a ! (besti - 1) = b ! (bestj - 1)
      then extend_lo want a b alo blo (besti - 1, bestj - 1, bestsize + 1)
      else (besti, bestj, bestsize))"
  by pat_completeness auto
termination
  by (relation "measure (\<lambda>(want, a, b, alo, blo, besti, bestj, bestsize). besti)") auto

function extend_hi ::
  "('a \<Rightarrow> bool) \<Rightarrow> 'a list \<Rightarrow> 'a list \<Rightarrow> nat \<Rightarrow> nat \<Rightarrow> nat \<times> nat \<times> nat \<Rightarrow> nat \<times> nat \<times> nat" where
  "extend_hi want a b ahi bhi (besti, bestj, bestsize) =
     (if besti + bestsize < ahi \<and> bestj + bestsize < bhi \<and> want (b ! (bestj + bestsize)) \<and>
         a ! (besti + bestsize) = b ! (bestj + bestsize)
      then extend_hi want a b ahi bhi (besti, bestj, bestsize + 1)
      else (besti, bestj, bestsize))"
  by pat_completeness auto
termination
  by (relation "measure (\<lambda>(want, a, b, ahi, bhi, besti, bestj, bestsize). ahi - (besti + bestsize))")
    auto

declare extend_lo.simps [simp del] extend_hi.simps [simp del]

definition find_longest_match ::
  "'a list \<Rightarrow> 'a list \<Rightarrow> ('a \<rightharpoonup> nat list) \<Rightarrow> nat \<Rightarrow> nat \<Rightarrow> nat \<Rightarrow> nat \<Rightarrow> nat \<times> nat \<times> nat" where
  "find_longest_match a b b2j alo ahi blo bhi =
     (let best0 = scan_is a b2j blo bhi [alo..<ahi] (Map.empty, alo, blo, 0);
          best1 = extend_lo (\<lambda>elt. \<not> isbjunk elt) a b alo blo best0;
          best2 = extend_hi (\<lambda>elt. \<not> isbjunk elt) a b ahi bhi best1;
          best3 = extend_lo isbjunk a b alo blo best2
      in extend_hi isbjunk a b ahi bhi best3)"

text \<open>
  Python raises \<^verbatim>\<open>IndexError\<close> for an index beyond the end; \<^verbatim>\<open>ratio\<close> starts from the
  whole of \<open>a\<close> and \<open>b\<close> and every later range lies inside the one before
  (\<open>find_longest_match_bounds\<close> below), so every index that is read is in range.
\<close>

text \<open>
  Two invariants of the scan. \<open>best_ok\<close>: the best block is still the empty block at
  \<open>(alo, blo)\<close>, or it lies inside \<open>a[alo:ahi]\<close> and \<open>b[blo:bhi]\<close>. \<open>j2len_ok\<close>: every
  entry of \<open>j2len\<close> sits at a position of \<open>b[blo:bhi]\<close> and is no longer than the part of
  \<open>b\<close> before it, nor than the number of rows scanned.
\<close>

definition best_ok :: "nat \<Rightarrow> nat \<Rightarrow> nat \<Rightarrow> nat \<Rightarrow> nat \<times> nat \<times> nat \<Rightarrow> bool" where
  "best_ok alo ahi blo bhi best =
     (case best of (besti, bestj, bestsize) \<Rightarrow>
        (besti = alo \<and> bestj = blo \<and> bestsize = 0) \<or>
        (alo \<le> besti \<and> besti + bestsize \<le> ahi \<and> blo \<le> bestj \<and> bestj + bestsize \<le> bhi))"

definition j2len_ok :: "nat \<Rightarrow> nat \<Rightarrow> nat \<Rightarrow> nat \<Rightarrow> (nat \<rightharpoonup> nat) \<Rightarrow> bool" where
  "j2len_ok alo blo bhi rows j2len =
     (\<forall>j l. j2len j = Some l \<longrightarrow> blo \<le> j \<and> j < bhi \<and> l \<le> j + 1 - blo \<and> l \<le> rows)"

lemma scan_js_ok:
  assumes "j2len_ok alo blo bhi (i - alo) j2len" "alo \<le> i" "i < ahi"
    and "j2len_ok alo blo bhi (i + 1 - alo) newj2len" "best_ok alo ahi blo bhi best"
    and "scan_js i blo bhi j2len js (newj2len, best) = (newj2len', best')"
  shows "j2len_ok alo blo bhi (i + 1 - alo) newj2len' \<and> best_ok alo ahi blo bhi best'"
  using assms
proof (induction js arbitrary: newj2len best)
  case Nil
  then show ?case by simp
next
  case (Cons j js)
  obtain besti bestj bestsize where best: "best = (besti, bestj, bestsize)"
    by (cases best) auto
  show ?case
  proof (cases "j < blo")
    case True
    with Cons best show ?thesis by simp
  next
    case lo: False
    show ?thesis
    proof (cases "j \<ge> bhi")
      case True
      with Cons.prems lo best show ?thesis by simp
    next
      case hi: False
      define k where "k = (if j = 0 then 0 else (case j2len (j - 1) of None \<Rightarrow> 0 | Some l \<Rightarrow> l)) + 1"
      have prev: "blo \<le> j - 1 \<and> l \<le> j - blo \<and> l \<le> i - alo"
        if "j2len (j - 1) = Some l" "j > 0" for l
      proof -
        from Cons.prems(1) that(1)
        have "blo \<le> j - 1 \<and> l \<le> (j - 1) + 1 - blo \<and> l \<le> i - alo"
          unfolding j2len_ok_def by blast
        with that(2) show ?thesis by simp
      qed
      have k1: "k \<le> j + 1 - blo" and k2: "k \<le> i + 1 - alo"
        using prev Cons.prems(2) lo hi unfolding k_def
        by (auto split: option.splits)
      have new_ok: "j2len_ok alo blo bhi (i + 1 - alo) (newj2len(j \<mapsto> k))"
        using Cons.prems(4) k1 k2 lo hi unfolding j2len_ok_def by auto
      have best_new: "best_ok alo ahi blo bhi (i + 1 - k, j + 1 - k, k)"
        using k1 k2 lo hi Cons.prems(2,3) unfolding best_ok_def by auto
      show ?thesis
      proof (cases "k > bestsize")
        case True
        then have "scan_js i blo bhi j2len js (newj2len(j \<mapsto> k), i + 1 - k, j + 1 - k, k) = (newj2len', best')"
          using Cons.prems(6) lo hi best by (simp add: k_def Let_def)
        from Cons.IH[OF Cons.prems(1,2,3) new_ok best_new this] show ?thesis .
      next
        case False
        then have "scan_js i blo bhi j2len js (newj2len(j \<mapsto> k), best) = (newj2len', best')"
          using Cons.prems(6) lo hi best by (simp add: k_def Let_def)
        from Cons.IH[OF Cons.prems(1,2,3) new_ok Cons.prems(5) this] show ?thesis .
      qed
    qed
  qed
qed

lemma scan_is_ok:
  assumes "j2len_ok alo blo bhi (i0 - alo) j2len" "alo \<le> i0" "best_ok alo ahi blo bhi best"
  shows "best_ok alo ahi blo bhi (scan_is a b2j blo bhi [i0..<ahi] (j2len, best))"
  using assms
proof (induction "ahi - i0" arbitrary: i0 j2len best)
  case 0
  then show ?case by simp
next
  case (Suc n)
  then have lt: "i0 < ahi" by simp
  then have upt: "[i0..<ahi] = i0 # [Suc i0..<ahi]" by (simp add: upt_rec)
  obtain newj2len best' where
    row: "scan_js i0 blo bhi j2len (case b2j (a ! i0) of None \<Rightarrow> [] | Some js \<Rightarrow> js) (Map.empty, best) = (newj2len, best')"
    by (cases "scan_js i0 blo bhi j2len (case b2j (a ! i0) of None \<Rightarrow> [] | Some js \<Rightarrow> js) (Map.empty, best)") auto
  have e: "j2len_ok alo blo bhi (i0 + 1 - alo) Map.empty" by (simp add: j2len_ok_def)
  from scan_js_ok[OF Suc.prems(1,2) lt e Suc.prems(3) row]
  have ok: "j2len_ok alo blo bhi (Suc i0 - alo) newj2len" "best_ok alo ahi blo bhi best'" by simp_all
  have "best_ok alo ahi blo bhi (scan_is a b2j blo bhi [Suc i0..<ahi] (newj2len, best'))"
    using Suc.hyps(1)[of "Suc i0" newj2len best'] Suc.hyps(2) ok Suc.prems(2) by simp
  then show ?case using upt row by simp
qed

lemma extend_lo_ok:
  "best_ok alo ahi blo bhi best \<Longrightarrow> best_ok alo ahi blo bhi (extend_lo want a b alo blo best)"
proof (induction want a b alo blo best rule: extend_lo.induct)
  case (1 want a b alo blo besti bestj bestsize)
  show ?case
  proof (cases "besti > alo \<and> bestj > blo \<and> want (b ! (bestj - 1)) \<and> a ! (besti - 1) = b ! (bestj - 1)")
    case True
    then have "best_ok alo ahi blo bhi (besti - 1, bestj - 1, bestsize + 1)"
      using "1.prems" by (auto simp: best_ok_def)
    with "1.IH" True show ?thesis by (subst extend_lo.simps) simp
  next
    case False
    with "1.prems" show ?thesis by (subst extend_lo.simps) auto
  qed
qed

lemma extend_hi_ok:
  "best_ok alo ahi blo bhi best \<Longrightarrow> best_ok alo ahi blo bhi (extend_hi want a b ahi bhi best)"
proof (induction want a b ahi bhi best rule: extend_hi.induct)
  case (1 want a b ahi bhi besti bestj bestsize)
  show ?case
  proof (cases "besti + bestsize < ahi \<and> bestj + bestsize < bhi \<and> want (b ! (bestj + bestsize)) \<and>
         a ! (besti + bestsize) = b ! (bestj + bestsize)")
    case True
    then have "best_ok alo ahi blo bhi (besti, bestj, bestsize + 1)"
      using "1.prems" by (auto simp: best_ok_def)
    with "1.IH" True show ?thesis by (subst extend_hi.simps) simp
  next
    case False
    with "1.prems" show ?thesis by (subst extend_hi.simps) auto
  qed
qed

lemma find_longest_match_ok:
  "best_ok alo ahi blo bhi (find_longest_match a b b2j alo ahi blo bhi)"
proof -
  have "best_ok alo ahi blo bhi (scan_is a b2j blo bhi [alo..<ahi] (Map.empty, alo, blo, 0))"
    by (rule scan_is_ok) (simp_all add: j2len_ok_def best_ok_def)
  then show ?thesis
    unfolding find_longest_match_def Let_def
    by (intro extend_hi_ok extend_lo_ok)
qed

lemma find_longest_match_bounds:
  assumes "find_longest_match a b b2j alo ahi blo bhi = (i, j, k)" "k \<noteq> 0"
  shows "alo \<le> i \<and> i + k \<le> ahi \<and> blo \<le> j \<and> j + k \<le> bhi"
  using find_longest_match_ok[of alo ahi blo bhi a b b2j] assms
  by (simp add: best_ok_def)

text \<open>
  The work list of \<^verbatim>\<open>get_matching_blocks\<close>. Python pops from the end of \<open>queue\<close> and
  appends to it; here the list is held with its end first.
\<close>

function matching_loop ::
  "'a list \<Rightarrow> 'a list \<Rightarrow> ('a \<rightharpoonup> nat list) \<Rightarrow> (nat \<times> nat \<times> nat \<times> nat) list \<Rightarrow>
   (nat \<times> nat \<times> nat) list \<Rightarrow> (nat \<times> nat \<times> nat) list" where
  "matching_loop a b b2j [] matching_blocks = matching_blocks"
| "matching_loop a b b2j ((alo, ahi, blo, bhi) # queue) matching_blocks =
     (case find_longest_match a b b2j alo ahi blo bhi of
        (i, j, k) \<Rightarrow>
          if k \<noteq> 0 then
            matching_loop a b b2j
              ((if i + k < ahi \<and> j + k < bhi then [(i + k, ahi, j + k, bhi)] else []) @
               (if alo < i \<and> blo < j then [(alo, i, blo, j)] else []) @ queue)
              (matching_blocks @ [(i, j, k)])
          else matching_loop a b b2j queue matching_blocks)"
  by pat_completeness auto
termination
  apply (relation "measure (\<lambda>(a, b, b2j, queue, matching_blocks).
          sum_list (map (\<lambda>(alo, ahi, blo, bhi). 2 * (ahi - alo) + 1) queue))")
    apply simp
   apply (auto dest!: find_longest_match_bounds [OF sym])
  done

text \<open>
  After the loop the blocks are sorted and adjacent blocks are merged into one; the
  sentinel \<open>(la, lb, 0)\<close> closes the list.
\<close>

fun collapse ::
  "(nat \<times> nat \<times> nat) list \<Rightarrow> nat \<times> nat \<times> nat \<Rightarrow> (nat \<times> nat \<times> nat) list \<Rightarrow>
   (nat \<times> nat \<times> nat) list" where
  "collapse [] (i1, j1, k1) non_adjacent =
     (if k1 \<noteq> 0 then non_adjacent @ [(i1, j1, k1)] else non_adjacent)"
| "collapse ((i2, j2, k2) # rest) (i1, j1, k1) non_adjacent =
     (if i1 + k1 = i2 \<and> j1 + k1 = j2 then collapse rest (i1, j1, k1 + k2) non_adjacent
      else collapse rest (i2, j2, k2)
             (if k1 \<noteq> 0 then non_adjacent @ [(i1, j1, k1)] else non_adjacent))"

definition get_matching_blocks :: "'a list \<Rightarrow> 'a list \<Rightarrow> (nat \<times> nat \<times> nat) list" where
  "get_matching_blocks a b =
     (let la = length a; lb = length b;
          matching_blocks = matching_loop a b (chain_b b) [(0, la, 0, lb)] []
      in collapse (sort matching_blocks) (0, 0, 0) [] @ [(la, lb, 0)])"

definition calculate_ratio :: "nat \<Rightarrow> nat \<Rightarrow> rat" where
  "calculate_ratio matches len = (if len \<noteq> 0 then 2 * of_nat matches / of_nat len else 1)"

definition ratio :: "'a list \<Rightarrow> 'a list \<Rightarrow> rat" where
  "ratio a b =
     (let matches = sum_list (map (\<lambda>(i, j, k). k) (get_matching_blocks a b))
      in calculate_ratio matches (length a + length b))"

text \<open>
  \<^verbatim>\<open>ratio\<close> adds up the sizes of the blocks. Sorting and merging do not change the sum,
  and the blocks found inside a range of \<open>a\<close> and of \<open>b\<close> are no longer than the range:
  the matched total is at most the length of either sequence.
\<close>

abbreviation size_of :: "nat \<times> nat \<times> nat \<Rightarrow> nat" where
  "size_of \<equiv> (\<lambda>(i, j, k). k)"

lemma collapse_sum:
  "sum_list (map size_of (collapse blocks (i1, j1, k1) acc)) =
     sum_list (map size_of acc) + k1 + sum_list (map size_of blocks)"
  by (induction blocks "(i1, j1, k1)" acc arbitrary: i1 j1 k1 rule: collapse.induct) auto

lemma sort_sum: "sum_list (map size_of (sort blocks)) = sum_list (map size_of blocks)"
proof -
  have ins: "sum_list (map size_of (insort x xs)) = size_of x + sum_list (map size_of xs)" for x xs
    by (induction xs) auto
  show ?thesis
    by (induction blocks) (simp_all add: ins)
qed

lemma matches_eq:
  "sum_list (map size_of (get_matching_blocks a b)) =
     sum_list (map size_of (matching_loop a b (chain_b b) [(0, length a, 0, length b)] []))"
  by (simp add: get_matching_blocks_def Let_def collapse_sum sort_sum)

definition width_a :: "nat \<times> nat \<times> nat \<times> nat \<Rightarrow> nat" where
  "width_a q = (case q of (alo, ahi, blo, bhi) \<Rightarrow> ahi - alo)"

definition width_b :: "nat \<times> nat \<times> nat \<times> nat \<Rightarrow> nat" where
  "width_b q = (case q of (alo, ahi, blo, bhi) \<Rightarrow> bhi - blo)"

lemma width_simps [simp]:
  "width_a (alo, ahi, blo, bhi) = ahi - alo" "width_b (alo, ahi, blo, bhi) = bhi - blo"
  by (simp_all add: width_a_def width_b_def)

lemma matching_loop_sum_a:
  "sum_list (map size_of blocks) + sum_list (map width_a queue) \<le> n
   \<Longrightarrow> sum_list (map size_of (matching_loop a b b2j queue blocks)) \<le> n"
proof (induction a b b2j queue blocks rule: matching_loop.induct)
  case (1 a b b2j matching_blocks)
  then show ?case by simp
next
  case (2 a b b2j alo ahi blo bhi queue matching_blocks)
  obtain i j k where flm: "find_longest_match a b b2j alo ahi blo bhi = (i, j, k)"
    by (cases "find_longest_match a b b2j alo ahi blo bhi") auto
  show ?case
  proof (cases "k = 0")
    case True
    with 2 flm show ?thesis by simp
  next
    case False
    from find_longest_match_bounds[OF flm False]
    have b: "alo \<le> i" "i + k \<le> ahi" by simp_all
    define R where "R = (if i + k < ahi \<and> j + k < bhi then ahi - (i + k) else 0)"
    define L where "L = (if alo < i \<and> blo < j then i - alo else 0)"
    define Q where "Q = sum_list (map width_a queue)"
    have eq: "sum_list (map width_a
            ((if i + k < ahi \<and> j + k < bhi then [(i + k, ahi, j + k, bhi)] else []) @
             (if alo < i \<and> blo < j then [(alo, i, blo, j)] else []) @ queue)) = R + L + Q"
      by (simp add: R_def L_def Q_def)
    have le: "R + L + k \<le> ahi - alo" using b by (auto simp: R_def L_def)
    have "sum_list (map size_of matching_blocks) + (ahi - alo) + Q \<le> n"
      using "2.prems" by (simp add: Q_def)
    with le have "sum_list (map size_of (matching_blocks @ [(i, j, k)])) + (R + L + Q) \<le> n"
      by simp
    then have "sum_list (map size_of (matching_blocks @ [(i, j, k)])) +
          sum_list (map width_a
            ((if i + k < ahi \<and> j + k < bhi then [(i + k, ahi, j + k, bhi)] else []) @
             (if alo < i \<and> blo < j then [(alo, i, blo, j)] else []) @ queue)) \<le> n"
      by (simp only: eq)
    from "2.IH"(1)[OF flm[symmetric] refl False this] flm False show ?thesis by simp
  qed
qed

lemma matching_loop_sum_b:
  "sum_list (map size_of blocks) + sum_list (map width_b queue) \<le> n
   \<Longrightarrow> sum_list (map size_of (matching_loop a b b2j queue blocks)) \<le> n"
proof (induction a b b2j queue blocks rule: matching_loop.induct)
  case (1 a b b2j matching_blocks)
  then show ?case by simp
next
  case (2 a b b2j alo ahi blo bhi queue matching_blocks)
  obtain i j k where flm: "find_longest_match a b b2j alo ahi blo bhi = (i, j, k)"
    by (cases "find_longest_match a b b2j alo ahi blo bhi") auto
  show ?case
  proof (cases "k = 0")
    case True
    with 2 flm show ?thesis by simp
  next
    case False
    from find_longest_match_bounds[OF flm False]
    have b: "blo \<le> j" "j + k \<le> bhi" by simp_all
    define R where "R = (if i + k < ahi \<and> j + k < bhi then bhi - (j + k) else 0)"
    define L where "L = (if alo < i \<and> blo < j then j - blo else 0)"
    define Q where "Q = sum_list (map width_b queue)"
    have eq: "sum_list (map width_b
            ((if i + k < ahi \<and> j + k < bhi then [(i + k, ahi, j + k, bhi)] else []) @
             (if alo < i \<and> blo < j then [(alo, i, blo, j)] else []) @ queue)) = R + L + Q"
      by (simp add: R_def L_def Q_def)
    have le: "R + L + k \<le> bhi - blo" using b by (auto simp: R_def L_def)
    have "sum_list (map size_of matching_blocks) + (bhi - blo) + Q \<le> n"
      using "2.prems" by (simp add: Q_def)
    with le have "sum_list (map size_of (matching_blocks @ [(i, j, k)])) + (R + L + Q) \<le> n"
      by simp
    then have "sum_list (map size_of (matching_blocks @ [(i, j, k)])) +
          sum_list (map width_b
            ((if i + k < ahi \<and> j + k < bhi then [(i + k, ahi, j + k, bhi)] else []) @
             (if alo < i \<and> blo < j then [(alo, i, blo, j)] else []) @ queue)) \<le> n"
      by (simp only: eq)
    from "2.IH"(1)[OF flm[symmetric] refl False this] flm False show ?thesis by simp
  qed
qed

lemma matches_le:
  "2 * sum_list (map size_of (get_matching_blocks a b)) \<le> length a + length b"
proof -
  let ?m = "sum_list (map size_of (matching_loop a b (chain_b b) [(0, length a, 0, length b)] []))"
  have "?m \<le> length a" by (rule matching_loop_sum_a) simp
  moreover have "?m \<le> length b" by (rule matching_loop_sum_b) simp
  ultimately show ?thesis by (simp add: matches_eq)
qed

lemma ratio_ge_0: "0 \<le> ratio a b"
  by (simp add: ratio_def calculate_ratio_def Let_def)

lemma ratio_le_1: "ratio a b \<le> 1"
proof -
  have "2 * (of_nat (sum_list (map size_of (get_matching_blocks a b))) :: rat)
        \<le> of_nat (length a + length b)"
    using matches_le[of a b] by (metis of_nat_le_iff of_nat_mult of_nat_numeral)
  then show ?thesis
    by (simp add: ratio_def calculate_ratio_def Let_def divide_le_eq)
qed

subsection \<open>What \<open>chain_b\<close> stores\<close>

definition positions :: "'a list \<Rightarrow> 'a \<Rightarrow> nat list" where
  "positions b elt = [j \<leftarrow> [0..<length b]. b ! j = elt]"

lemma positions_Cons:
  "positions (x # xs) elt = (if x = elt then [0] else []) @ map Suc (positions xs elt)"
proof -
  have "[0..<length (x # xs)] = 0 # map Suc [0..<length xs]"
    by (simp add: upt_conv_Cons map_Suc_upt del: upt_Suc)
  then show ?thesis
    by (simp add: positions_def filter_map comp_def del: upt_Suc)
qed

lemma enumerate_b2j_lookup:
  "enumerate_b2j i b m elt =
     (if positions b elt = [] then m elt
      else Some ((case m elt of None \<Rightarrow> [] | Some l \<Rightarrow> l) @ map (\<lambda>k. i + k) (positions b elt)))"
proof (induction b arbitrary: i m)
  case Nil
  then show ?case by (simp add: positions_def)
next
  case (Cons x xs)
  show ?case
    by (simp add: Cons.IH positions_Cons comp_def)
qed

lemma chain_b_Some:
  assumes "chain_b b elt = Some js"
  shows "js = positions b elt \<and> js \<noteq> []"
proof -
  have e: "enumerate_b2j 0 b Map.empty elt =
             (if positions b elt = [] then None else Some (positions b elt))"
    by (simp add: enumerate_b2j_lookup map_idI)
  from assms show ?thesis
    by (auto simp: chain_b_def Let_def e split: if_splits option.splits)
qed

lemma positions_set: "set (positions b elt) = {j. j < length b \<and> b ! j = elt}"
  by (auto simp: positions_def)

lemma chain_b_in_set:
  assumes "chain_b b elt = Some js"
  shows "elt \<in> set b"
proof -
  from chain_b_Some[OF assms] have "positions b elt \<noteq> []" by auto
  then have "hd (positions b elt) \<in> set (positions b elt)" by simp
  then show ?thesis unfolding positions_set by (auto dest: nth_mem)
qed

subsection \<open>Sequences with no common element\<close>

lemma scan_is_no_entries:
  assumes "\<forall>i \<in> set is. b2j (a ! i) = None"
  shows "scan_is a b2j blo bhi is (j2len, best) = best"
  using assms by (induction "is" arbitrary: j2len) (auto split: prod.splits)

lemma extend_lo_at_lo: "extend_lo want a b alo blo (alo, bestj, bestsize) = (alo, bestj, bestsize)"
  by (subst extend_lo.simps) simp

lemma extend_hi_differ:
  assumes "besti + bestsize < ahi \<and> bestj + bestsize < bhi \<longrightarrow>
             a ! (besti + bestsize) \<noteq> b ! (bestj + bestsize)"
  shows "extend_hi want a b ahi bhi (besti, bestj, bestsize) = (besti, bestj, bestsize)"
  using assms by (subst extend_hi.simps) auto

lemma find_longest_match_disjoint:
  assumes "set a \<inter> set b = {}"
  shows "find_longest_match a b (chain_b b) 0 (length a) 0 (length b) = (0, 0, 0)"
proof -
  have "chain_b b (a ! i) = None" if "i < length a" for i
  proof (cases "chain_b b (a ! i)")
    case (Some js)
    from chain_b_in_set[OF this] that assms show ?thesis by (auto dest: nth_mem)
  qed simp
  then have scan: "scan_is a (chain_b b) 0 (length b) [0..<length a] (Map.empty, 0, 0, 0) = (0, 0, 0)"
    by (intro scan_is_no_entries) simp
  have hi: "extend_hi want a b (length a) (length b) (0, 0, 0) = (0, 0, 0)" for want
  proof (rule extend_hi_differ, intro impI)
    assume "0 + 0 < length a \<and> 0 + 0 < length b"
    then have "a ! 0 \<in> set a" "b ! 0 \<in> set b" by simp_all
    with assms show "a ! (0 + 0) \<noteq> b ! (0 + 0)" by auto
  qed
  show ?thesis
    by (simp add: find_longest_match_def scan extend_lo_at_lo hi)
qed

lemma ratio_disjoint:
  assumes "set a \<inter> set b = {}" and "a \<noteq> [] \<or> b \<noteq> []"
  shows "ratio a b = 0"
proof -
  have "matching_loop a b (chain_b b) [(0, length a, 0, length b)] [] = []"
    by (simp add: find_longest_match_disjoint[OF assms(1)])
  then have "sum_list (map size_of (get_matching_blocks a b)) = 0"
    by (simp add: matches_eq)
  with assms(2) show ?thesis
    by (simp add: ratio_def calculate_ratio_def Let_def del: sum_list_eq_0_iff)
qed

subsection \<open>A sequence against itself\<close>

text \<open>
  \<open>kval\<close> is the \<open>k\<close> that the inner loop computes at position \<open>j\<close>. \<open>run x\<close> is the length
  of the run of elements that \<open>b2j\<close> knows (not popular) ending at \<open>x\<close>.
\<close>

definition kval :: "(nat \<rightharpoonup> nat) \<Rightarrow> nat \<Rightarrow> nat" where
  "kval j2len j = (if j = 0 then 0 else (case j2len (j - 1) of None \<Rightarrow> 0 | Some l \<Rightarrow> l)) + 1"

primrec run :: "'a list \<Rightarrow> ('a \<rightharpoonup> nat list) \<Rightarrow> nat \<Rightarrow> nat" where
  "run a b2j 0 = (if b2j (a ! 0) = None then 0 else 1)"
| "run a b2j (Suc x) = (if b2j (a ! Suc x) = None then 0 else Suc (run a b2j x))"

primrec put_all :: "(nat \<Rightarrow> nat) \<Rightarrow> nat list \<Rightarrow> (nat \<rightharpoonup> nat) \<Rightarrow> (nat \<rightharpoonup> nat)" where
  "put_all f [] m = m"
| "put_all f (j # js) m = put_all f js (m(j \<mapsto> f j))"

lemma run_le: "run a b2j x \<le> Suc x"
  by (induction x) auto

lemma scan_js_Cons:
  "scan_js i blo bhi j2len (j # js) (nj, besti, bestj, bestsize) =
     (if j < blo then scan_js i blo bhi j2len js (nj, besti, bestj, bestsize)
      else if bhi \<le> j then (nj, besti, bestj, bestsize)
      else if kval j2len j > bestsize
        then scan_js i blo bhi j2len js
               (nj(j \<mapsto> kval j2len j), i + 1 - kval j2len j, j + 1 - kval j2len j, kval j2len j)
        else scan_js i blo bhi j2len js (nj(j \<mapsto> kval j2len j), besti, bestj, bestsize))"
  by (simp add: kval_def Let_def)

lemma scan_js_noupd:
  assumes "\<forall>j \<in> set js. blo \<le> j \<and> j < bhi \<and> kval j2len j \<le> bestsize"
  shows "scan_js i blo bhi j2len js (nj, besti, bestj, bestsize) =
           (put_all (kval j2len) js nj, besti, bestj, bestsize)"
  using assms
proof (induction js arbitrary: nj)
  case Nil
  then show ?case by simp
next
  case (Cons j js)
  then have "blo \<le> j" "j < bhi" "kval j2len j \<le> bestsize" by simp_all
  moreover have "scan_js i blo bhi j2len js (nj(j \<mapsto> kval j2len j), besti, bestj, bestsize) =
     (put_all (kval j2len) js (nj(j \<mapsto> kval j2len j)), besti, bestj, bestsize)"
    using Cons.prems by (intro Cons.IH) simp
  ultimately show ?case by (simp add: scan_js_Cons del: scan_js.simps)
qed

lemma scan_js_append:
  assumes "\<forall>j \<in> set xs. j < bhi"
  shows "scan_js i blo bhi j2len (xs @ ys) st =
           scan_js i blo bhi j2len ys (scan_js i blo bhi j2len xs st)"
  using assms
proof (induction xs arbitrary: st)
  case Nil
  then show ?case by simp
next
  case (Cons j js)
  obtain nj besti bestj bestsize where st: "st = (nj, besti, bestj, bestsize)"
    by (cases st) auto
  from Cons.prems have "j < bhi" "\<forall>j \<in> set js. j < bhi" by simp_all
  with Cons.IH show ?case by (simp add: st scan_js_Cons del: scan_js.simps)
qed

lemma put_all_lookup:
  "put_all f js m0 x = (if x \<in> set js then Some (f x) else m0 x)"
  by (induction js arbitrary: m0) auto

lemma positions_split:
  assumes "i < length a"
  shows "positions a (a ! i) =
           [j \<leftarrow> [0..<i]. a ! j = a ! i] @ i # [j \<leftarrow> [Suc i..<length a]. a ! j = a ! i]"
proof -
  have "[0..<length a] = [0..<i] @ i # [Suc i..<length a]"
    using assms by (metis le_add1 less_imp_add_positive upt_add_eq_append upt_conv_Cons
        add.commute add_0 le0 less_or_eq_imp_le upt_rec)
  then show ?thesis by (simp add: positions_def)
qed

text \<open>
  The invariant of the scan of a sequence against itself, before row \<open>i\<close>: the best block
  lies on the diagonal within the rows scanned and is at least as long as every run seen;
  the entries of \<open>j2len\<close> are bounded by the run at their position and by the run at row
  \<open>i - 1\<close>, and the entry on the diagonal is that run.
\<close>

definition diag_inv ::
  "'a list \<Rightarrow> ('a \<rightharpoonup> nat list) \<Rightarrow> nat \<Rightarrow> (nat \<rightharpoonup> nat) \<times> nat \<times> nat \<times> nat \<Rightarrow> bool" where
  "diag_inv a b2j i st =
     (case st of (j2len, besti, bestj, bestsize) \<Rightarrow>
        besti = bestj \<and> besti + bestsize \<le> i \<and>
        (\<forall>x < i. run a b2j x \<le> bestsize) \<and>
        (\<forall>j l. j2len j = Some l \<longrightarrow> 0 < i \<and> l \<le> run a b2j j \<and> l \<le> run a b2j (i - 1)) \<and>
        (0 < i \<and> b2j (a ! (i - 1)) \<noteq> None \<longrightarrow> j2len (i - 1) = Some (run a b2j (i - 1))))"

lemma run_known: "b2j (a ! x) \<noteq> None \<Longrightarrow> run a b2j x = (if x = 0 then 1 else Suc (run a b2j (x - 1)))"
  by (cases x) auto

lemma run_unknown: "b2j (a ! x) = None \<Longrightarrow> run a b2j x = 0"
  by (cases x) auto

lemma diag_row:
  assumes inv: "diag_inv a (chain_b a) i (j2len, besti, bestj, bestsize)" and i: "i < length a"
  shows "diag_inv a (chain_b a) (Suc i)
           (scan_js i 0 (length a) j2len
              (case chain_b a (a ! i) of None \<Rightarrow> [] | Some js \<Rightarrow> js)
              (Map.empty, besti, bestj, bestsize))"
proof (cases "chain_b a (a ! i)")
  case None
  with inv show ?thesis
    by (auto simp: diag_inv_def run_unknown less_Suc_eq)
next
  case (Some js)
  let ?b2j = "chain_b a" and ?n = "length a"
  let ?run = "run a ?b2j" and ?kv = "kval j2len"
  let ?L = "[j \<leftarrow> [0..<i]. a ! j = a ! i]" and ?G = "[j \<leftarrow> [Suc i..<?n]. a ! j = a ! i]"
  from chain_b_Some[OF Some] positions_split[OF i] have js: "js = ?L @ i # ?G" by simp
  have known_i: "?b2j (a ! i) \<noteq> None" using Some by simp
  from inv have diag: "besti = bestj" and within: "besti + bestsize \<le> i"
    and seen: "\<And>x. x < i \<Longrightarrow> ?run x \<le> bestsize"
    and ent: "\<And>j l. j2len j = Some l \<Longrightarrow> 0 < i \<and> l \<le> ?run j \<and> l \<le> ?run (i - 1)"
    and dent: "0 < i \<Longrightarrow> ?b2j (a ! (i - 1)) \<noteq> None \<Longrightarrow> j2len (i - 1) = Some (?run (i - 1))"
    by (auto simp: diag_inv_def)
  have run_i: "?run i = (if i = 0 then 1 else Suc (?run (i - 1)))"
    using known_i by (rule run_known[of "chain_b a" a i])
  have K1: "?kv j \<le> ?run j" if "a ! j = a ! i" for j
  proof -
    from that known_i have "?run j = (if j = 0 then 1 else Suc (?run (j - 1)))"
      by (intro run_known[of "chain_b a" a j]) simp
    then show ?thesis
      using ent[of "j - 1"] by (auto simp: kval_def split: option.splits)
  qed
  have K2: "?kv j \<le> ?run i" for j
    using ent[of "j - 1"] run_i by (auto simp: kval_def split: option.splits)
  have K3: "?kv i = ?run i"
  proof (cases "i = 0")
    case True
    with known_i show ?thesis by (auto simp: kval_def)
  next
    case False
    show ?thesis
    proof (cases "?b2j (a ! (i - 1)) = None")
      case True
      then have "?run (i - 1) = 0" by (rule run_unknown[of "chain_b a" a "i - 1"])
      with ent[of "i - 1"] False show ?thesis
        by (auto simp: kval_def run_i split: option.splits)
    next
      case known: False
      with dent False show ?thesis by (simp add: kval_def run_i)
    qed
  qed
  define m1 where "m1 = put_all ?kv ?L Map.empty"
  define st2 where "st2 =
     (if ?kv i > bestsize then (m1(i \<mapsto> ?kv i), i + 1 - ?kv i, i + 1 - ?kv i, ?kv i)
      else (m1(i \<mapsto> ?kv i), besti, bestj, bestsize))"
  obtain besti2 bestj2 bestsize2 where st2': "st2 = (m1(i \<mapsto> ?kv i), besti2, bestj2, bestsize2)"
    by (cases "?kv i > bestsize") (simp_all add: st2_def)
  have b2: "besti2 = bestj2" "besti2 + bestsize2 \<le> Suc i" "bestsize \<le> bestsize2"
    "?run i \<le> bestsize2"
    using st2' diag within K3 run_le[of a ?b2j i] by (auto simp: st2_def split: if_splits)
  have phaseL: "scan_js i 0 ?n j2len ?L (Map.empty, besti, bestj, bestsize) =
                  (m1, besti, bestj, bestsize)"
    unfolding m1_def
  proof (rule scan_js_noupd, intro ballI conjI)
    fix j assume "j \<in> set ?L"
    then have j: "j < i" "a ! j = a ! i" by auto
    show "0 \<le> j" by simp
    show "j < ?n" using j i by simp
    show "?kv j \<le> bestsize" using K1[OF j(2)] seen[OF j(1)] by simp
  qed
  have phaseI: "scan_js i 0 ?n j2len [i] (m1, besti, bestj, bestsize) = st2"
    using i by (simp add: scan_js_Cons st2_def del: scan_js.simps(2))
  have phaseG: "scan_js i 0 ?n j2len ?G st2 =
                  (put_all ?kv ?G (m1(i \<mapsto> ?kv i)), besti2, bestj2, bestsize2)"
    unfolding st2'
  proof (rule scan_js_noupd, intro ballI conjI)
    fix j assume "j \<in> set ?G"
    then have j: "j < ?n" by auto
    show "0 \<le> j" by simp
    show "j < ?n" by (rule j)
    show "?kv j \<le> bestsize2" using K2[of j] b2(4) by simp
  qed
  have app1: "scan_js i 0 ?n j2len (?L @ (i # ?G)) (Map.empty, besti, bestj, bestsize) =
          scan_js i 0 ?n j2len (i # ?G)
            (scan_js i 0 ?n j2len ?L (Map.empty, besti, bestj, bestsize))"
    by (rule scan_js_append) (use i in auto)
  have app2: "scan_js i 0 ?n j2len ([i] @ ?G) (m1, besti, bestj, bestsize) =
          scan_js i 0 ?n j2len ?G (scan_js i 0 ?n j2len [i] (m1, besti, bestj, bestsize))"
    by (rule scan_js_append) (use i in simp)
  have "scan_js i 0 ?n j2len js (Map.empty, besti, bestj, bestsize) =
          scan_js i 0 ?n j2len (i # ?G) (m1, besti, bestj, bestsize)"
    unfolding js app1 phaseL ..
  also have "\<dots> = scan_js i 0 ?n j2len ?G st2"
    using app2 unfolding phaseI by (simp del: scan_js.simps)
  finally have scan: "scan_js i 0 ?n j2len js (Map.empty, besti, bestj, bestsize) =
            (put_all ?kv ?G (m1(i \<mapsto> ?kv i)), besti2, bestj2, bestsize2)"
    by (simp add: phaseG)
  let ?new = "put_all ?kv ?G (m1(i \<mapsto> ?kv i))"
  have new: "?new x = Some l \<Longrightarrow> a ! x = a ! i \<and> l = ?kv x" for x l
    by (auto simp: put_all_lookup m1_def split: if_splits)
  have new_i: "?new i = Some (?kv i)"
    by (simp add: put_all_lookup)
  have "diag_inv a ?b2j (Suc i) (?new, besti2, bestj2, bestsize2)"
    unfolding diag_inv_def
  proof (simp only: prod.case, intro conjI allI impI)
    show "besti2 = bestj2" by (rule b2(1))
    show "besti2 + bestsize2 \<le> Suc i" by (rule b2(2))
    show "?run x \<le> bestsize2" if "x < Suc i" for x
      using that seen[of x] b2(3,4) by (cases "x = i") auto
    show "0 < Suc i" by simp
    show "l \<le> ?run j" if "?new j = Some l" for j l
      using new[OF that] K1[of j] by simp
    show "l \<le> ?run (Suc i - 1)" if "?new j = Some l" for j l
      using new[OF that] K2[of j] by simp
    show "?new (Suc i - 1) = Some (?run (Suc i - 1))"
      using new_i K3 by simp
  qed
  with scan Some show ?thesis by simp
qed

lemma scan_is_diag:
  assumes "diag_inv a (chain_b a) i0 (j2len, best)" and "i0 \<le> length a"
  shows "\<exists>p k. scan_is a (chain_b a) 0 (length a) [i0..<length a] (j2len, best) = (p, p, k) \<and>
               p + k \<le> length a"
  using assms
proof (induction "length a - i0" arbitrary: i0 j2len best)
  case 0
  then have "i0 = length a" by simp
  with "0.prems"(1) show ?case
    by (cases best) (auto simp: diag_inv_def)
next
  case (Suc d)
  then have lt: "i0 < length a" by simp
  then have upt: "[i0..<length a] = i0 # [Suc i0..<length a]" by (simp add: upt_rec)
  obtain besti bestj bestsize where best: "best = (besti, bestj, bestsize)"
    by (cases best) auto
  let ?row = "scan_js i0 0 (length a) j2len
                (case chain_b a (a ! i0) of None \<Rightarrow> [] | Some js \<Rightarrow> js)
                (Map.empty, best)"
  obtain newj2len best' where row: "?row = (newj2len, best')"
    by (cases ?row) auto
  have "diag_inv a (chain_b a) (Suc i0) ?row"
    using diag_row[OF Suc.prems(1)[unfolded best] lt] by (simp add: best)
  then have inv': "diag_inv a (chain_b a) (Suc i0) (newj2len, best')"
    by (simp add: row)
  have "\<exists>p k. scan_is a (chain_b a) 0 (length a) [Suc i0..<length a] (newj2len, best') = (p, p, k) \<and>
               p + k \<le> length a"
    using Suc.hyps(1)[of "Suc i0" newj2len best'] Suc.hyps(2) inv' lt by simp
  then show ?case
    by (simp add: upt row)
qed

lemma extend_lo_diag:
  assumes "\<And>x. want x"
  shows "extend_lo want a a 0 0 (p, p, k) = (0, 0, k + p)"
proof (induction p arbitrary: k)
  case 0
  show ?case by (subst extend_lo.simps) simp
next
  case (Suc p)
  show ?case
    by (subst extend_lo.simps) (simp add: assms Suc.IH)
qed

lemma extend_hi_diag:
  assumes "\<And>x. want x" and "k \<le> n"
  shows "extend_hi want a a n n (0, 0, k) = (0, 0, n)"
  using assms(2)
proof (induction "n - k" arbitrary: k)
  case 0
  then show ?case by (subst extend_hi.simps) simp
next
  case (Suc d)
  then have "k < n" by simp
  moreover have "extend_hi want a a n n (0, 0, Suc k) = (0, 0, n)"
    using Suc.hyps(1)[of "Suc k"] Suc.hyps(2) Suc.prems by simp
  ultimately show ?case
    by (subst extend_hi.simps) (simp add: assms(1))
qed

lemma extend_hi_done:
  "besti + bestsize \<ge> ahi \<Longrightarrow>
   extend_hi want a b ahi bhi (besti, bestj, bestsize) = (besti, bestj, bestsize)"
  by (subst extend_hi.simps) simp

lemma find_longest_match_same:
  "find_longest_match a a (chain_b a) 0 (length a) 0 (length a) = (0, 0, length a)"
proof -
  have "diag_inv a (chain_b a) 0 (Map.empty, 0, 0, 0)"
    by (simp add: diag_inv_def)
  from scan_is_diag[OF this] obtain p k where
    scan: "scan_is a (chain_b a) 0 (length a) [0..<length a] (Map.empty, 0, 0, 0) = (p, p, k)"
    and le: "p + k \<le> length a"
    by auto
  have nj: "\<not> isbjunk x" for x :: 'a
    by (simp add: isbjunk_def bjunk_def)
  have lo: "extend_lo (\<lambda>elt. \<not> isbjunk elt) a a 0 0 (p, p, k) = (0, 0, k + p)"
    by (rule extend_lo_diag) (rule nj)
  have hi: "extend_hi (\<lambda>elt. \<not> isbjunk elt) a a (length a) (length a) (0, 0, k + p) =
              (0, 0, length a)"
    by (rule extend_hi_diag) (use nj le in simp_all)
  show ?thesis
    by (simp add: find_longest_match_def scan lo hi extend_lo_at_lo extend_hi_done)
qed

lemma ratio_same: "ratio a a = 1"
proof (cases "a = []")
  case True
  then show ?thesis
    by (simp add: ratio_def calculate_ratio_def)
next
  case False
  then have "matching_loop a a (chain_b a) [(0, length a, 0, length a)] [] = [(0, 0, length a)]"
    by (simp add: find_longest_match_same)
  then have "sum_list (map size_of (get_matching_blocks a a)) = length a"
    by (simp add: matches_eq)
  with False show ?thesis
    by (simp add: ratio_def calculate_ratio_def Let_def)
qed

section \<open>Column labels and exceptions\<close>

text \<open>
  A column label is what pandas found in the header row. \<^verbatim>\<open>read_csv\<close> gives texts;
  \<^verbatim>\<open>read_excel\<close> keeps a numeric header cell as a number and a date cell as a date
  object. A text is the list of its characters, which are Unicode code points: the type
  \<open>'c\<close> of characters is left open, and \<open>char\<close> serves where a text is written out.
  Python compares \<^verbatim>\<open>int\<close>, \<^verbatim>\<open>float\<close> and \<^verbatim>\<open>bool\<close> by value, so a number is its
  value. \<open>truthy\<close> is the truth value Python gives a label in a condition: the empty
  text and the number zero are false.
\<close>

datatype 'c label = Str "'c list" | Num rat | Other nat

definition truthy :: "'c label \<Rightarrow> bool" where
  "truthy l = (case l of Str s \<Rightarrow> s \<noteq> [] | Num n \<Rightarrow> n \<noteq> 0 | Other d \<Rightarrow> True)"

definition is_text :: "'c label \<Rightarrow> bool" where
  "is_text l = (case l of Str s \<Rightarrow> True | Num n \<Rightarrow> False | Other d \<Rightarrow> False)"

text \<open>Exceptions are values of \<open>error\<close>; a function that can raise returns \<open>error + 'a\<close>.\<close>

datatype error = AttributeError | KeyError | ValueError | JSONDecodeError | Exception

section \<open>The similarity matcher\<close>

text \<open>
  \<^verbatim>\<open>str.lower()\<close> rests on the case tables of Unicode, which are no part of the program:
  it is the parameter \<open>lower\<close> of the matcher, and \<open>lower s\<close> is the sequence of characters
  of \<^verbatim>\<open>s.lower()\<close>. A label that is not a text has no \<^verbatim>\<open>lower\<close>: the call raises
  \<^verbatim>\<open>AttributeError\<close>.
\<close>

definition lower_of :: "('c list \<Rightarrow> 'd list) \<Rightarrow> 'c label \<Rightarrow> error + 'd list" where
  "lower_of lower l =
     (case l of Str s \<Rightarrow> Inr (lower s) | Num n \<Rightarrow> Inl AttributeError | Other d \<Rightarrow> Inl AttributeError)"

text \<open>
  On a text of ASCII characters \<^verbatim>\<open>str.lower()\<close> replaces the capitals \<open>A\<close> to \<open>Z\<close>. This
  instance of \<open>lower\<close> serves where a score is computed on such names.
\<close>

definition char_lower :: "char \<Rightarrow> char" where
  "char_lower c =
     (let n = (of_char c :: nat) in if 65 \<le> n \<and> n \<le> 90 then char_of (n + 32) else c)"

definition ascii_lower :: "string \<Rightarrow> string" where
  "ascii_lower s = map char_lower s"

text \<open>
  \<^verbatim>\<open>ColumnMapper.fuzzy_match_columns\<close>. The loop body computes
  \<^verbatim>\<open>SequenceMatcher(None, template_col.lower(), source_col.lower()).ratio()\<close>, the
  template's \<^verbatim>\<open>lower\<close> first; the threshold is a rational like the ratio. The inner loop
  appends \<open>(source_col, ratio)\<close> for every source column whose ratio reaches the
  threshold, in the order of \<open>source_columns\<close>; an exception ends the whole call.
\<close>

fun collect_matches ::
  "('c list \<Rightarrow> 'd list) \<Rightarrow> 'c label \<Rightarrow> 'c label list \<Rightarrow> rat \<Rightarrow> error + ('c label \<times> rat) list" where
  "collect_matches lower template_col [] threshold = Inr []"
| "collect_matches lower template_col (source_col # rest) threshold =
     (case lower_of lower template_col of
        Inl e \<Rightarrow> Inl e
      | Inr a \<Rightarrow>
          (case lower_of lower source_col of
             Inl e \<Rightarrow> Inl e
           | Inr b \<Rightarrow>
               (let r = ratio a b
                in case collect_matches lower template_col rest threshold of
                     Inl e \<Rightarrow> Inl e
                   | Inr matches \<Rightarrow>
                       Inr (if r \<ge> threshold then (source_col, r) # matches else matches))))"

text \<open>
  \<^verbatim>\<open>matches.sort(key=lambda x: x[1], reverse=True)\<close>: Python's sort is stable, also with
  \<^verbatim>\<open>reverse=True\<close>, so it is the stable sort on the negated score.
\<close>

definition sort_matches :: "('c label \<times> rat) list \<Rightarrow> ('c label \<times> rat) list" where
  "sort_matches matches = sort_key (\<lambda>x. - snd x) matches"

fun fuzzy_loop ::
  "('c list \<Rightarrow> 'd list) \<Rightarrow> 'c label list \<Rightarrow> 'c label list \<Rightarrow> rat \<Rightarrow>
   ('c label \<rightharpoonup> ('c label \<times> rat) list) \<Rightarrow> error + ('c label \<rightharpoonup> ('c label \<times> rat) list)" where
  "fuzzy_loop lower [] source_columns threshold fuzzy_matches = Inr fuzzy_matches"
| "fuzzy_loop lower (template_col # rest) source_columns threshold fuzzy_matches =
     (case collect_matches lower template_col source_columns threshold of
        Inl e \<Rightarrow> Inl e
      | Inr collected \<Rightarrow>
          (let matches = sort_matches collected
           in fuzzy_loop lower rest source_columns threshold
                (if matches \<noteq> [] then fuzzy_matches(template_col \<mapsto> take 3 matches)
                 else fuzzy_matches)))"

text \<open>
  \<^verbatim>\<open>fuzzy_match_columns\<close> has no \<^verbatim>\<open>raise\<close> of its own and checks nothing about its
  threshold.
\<close>

definition fuzzy_match_columns ::
  "('c list \<Rightarrow> 'd list) \<Rightarrow> 'c label list \<Rightarrow> 'c label list \<Rightarrow> rat \<Rightarrow>
   error + ('c label \<rightharpoonup> ('c label \<times> rat) list)" where
  "fuzzy_match_columns lower template_columns source_columns threshold =
     fuzzy_loop lower template_columns source_columns threshold Map.empty"

text \<open>
  \<open>score\<close> is the ratio that the loop body computes for two text labels. For any other
  pair of labels \<^verbatim>\<open>lower()\<close> raises before a ratio exists; \<open>score\<close> is \<open>0\<close> there, and no
  result of the matcher holds such a pair. \<open>qualifying\<close> lists the source columns with
  their scores that reach the threshold.
\<close>

definition score :: "('c list \<Rightarrow> 'd list) \<Rightarrow> 'c label \<Rightarrow> 'c label \<Rightarrow> rat" where
  "score lower template_col source_col =
     (case (lower_of lower template_col, lower_of lower source_col) of
        (Inr a, Inr b) \<Rightarrow> ratio a b
      | _ \<Rightarrow> 0)"

definition qualifying ::
  "('c list \<Rightarrow> 'd list) \<Rightarrow> 'c label \<Rightarrow> 'c label list \<Rightarrow> rat \<Rightarrow> ('c label \<times> rat) list" where
  "qualifying lower template_col source_columns threshold =
     filter (\<lambda>c. threshold \<le> snd c)
       (map (\<lambda>s. (s, score lower template_col s)) source_columns)"

lemma score_text: "score lower (Str a) (Str b) = ratio (lower a) (lower b)"
  by (simp add: score_def lower_of_def)

lemma collect_matches_eq:
  "collect_matches lower tc scs t =
     (if \<exists>sc \<in> set scs. \<not> (is_text tc \<and> is_text sc) then Inl AttributeError
      else Inr (qualifying lower tc scs t))"
proof (induction scs)
  case Nil
  show ?case by (simp add: qualifying_def)
next
  case (Cons sc scs)
  show ?case
  proof (cases "is_text tc \<and> is_text sc")
    case False
    then show ?thesis
      by (auto simp: is_text_def lower_of_def split: label.splits)
  next
    case True
    then obtain a b where "tc = Str a" "sc = Str b"
      by (auto simp: is_text_def split: label.splits)
    with Cons.IH show ?thesis
      by (auto simp: lower_of_def Let_def qualifying_def score_text is_text_def)
  qed
qed

lemma sort_matches_Nil [simp]: "sort_matches ms = [] \<longleftrightarrow> ms = []"
  by (metis length_sort list.size(3) length_0_conv sort_matches_def)

lemma fuzzy_loop_eq:
  "fuzzy_loop lower tcs scs t fm =
     (if \<exists>tc \<in> set tcs. \<exists>sc \<in> set scs. \<not> (is_text tc \<and> is_text sc) then Inl AttributeError
      else Inr (\<lambda>tc. if tc \<in> set tcs \<and> qualifying lower tc scs t \<noteq> []
                     then Some (take 3 (sort_matches (qualifying lower tc scs t)))
                     else fm tc))"
proof (induction tcs arbitrary: fm)
  case Nil
  show ?case by simp
next
  case (Cons tc tcs)
  show ?case
  proof (cases "\<exists>sc \<in> set scs. \<not> (is_text tc \<and> is_text sc)")
    case True
    then show ?thesis by (auto simp: collect_matches_eq)
  next
    case False
    then have c: "collect_matches lower tc scs t = Inr (qualifying lower tc scs t)"
      by (simp add: collect_matches_eq)
    show ?thesis
    proof (cases "\<exists>tc \<in> set tcs. \<exists>sc \<in> set scs. \<not> (is_text tc \<and> is_text sc)")
      case True
      then show ?thesis by (auto simp: c Cons.IH Let_def)
    next
      case ok: False
      with False have ok': "\<not> (\<exists>x \<in> set (tc # tcs). \<exists>sc \<in> set scs. \<not> (is_text x \<and> is_text sc))"
        by (cases scs) auto
      have "fuzzy_loop lower (tc # tcs) scs t fm =
              Inr (\<lambda>x. if x \<in> set tcs \<and> qualifying lower x scs t \<noteq> []
                     then Some (take 3 (sort_matches (qualifying lower x scs t)))
                     else (if qualifying lower tc scs t \<noteq> []
                           then fm(tc \<mapsto> take 3 (sort_matches (qualifying lower tc scs t)))
                           else fm) x)"
        using ok by (simp add: c Cons.IH Let_def)
      also have "\<dots> = Inr (\<lambda>x. if x \<in> set (tc # tcs) \<and> qualifying lower x scs t \<noteq> []
                     then Some (take 3 (sort_matches (qualifying lower x scs t)))
                     else fm x)"
        by (auto simp: fun_eq_iff)
      finally show ?thesis using ok' by (simp only: if_False)
    qed
  qed
qed

lemma sort_matches_sorted: "sorted_wrt (\<lambda>x y. snd y \<le> snd x) (sort_matches ms)"
proof -
  have "sorted (map (\<lambda>x. - snd x) (sort_matches ms))"
    by (simp add: sort_matches_def)
  then show ?thesis by (simp add: sorted_map sorted_wrt_iff_nth_less)
qed

lemma sort_matches_stable:
  "filter (\<lambda>c. snd c = k) (sort_matches ms) = filter (\<lambda>c. snd c = k) ms"
  using sort_key_stable[of "\<lambda>x. - snd x" "- k" ms] by (simp add: sort_matches_def)

lemma set_sort_matches [simp]: "set (sort_matches ms) = set ms"
  by (simp add: sort_matches_def)

lemma mset_sort_matches [simp]: "mset (sort_matches ms) = mset ms"
  by (simp add: sort_matches_def)

lemma sort_matches_split:
  fixes ms :: "('c label \<times> rat) list"
  shows "sort_matches ms =
     sort_matches (filter (\<lambda>c. t \<le> snd c) ms) @ sort_matches (filter (\<lambda>c. \<not> t \<le> snd c) ms)"
proof -
  let ?f = "\<lambda>x :: 'c label \<times> rat. - snd x"
  let ?hi = "filter (\<lambda>c. t \<le> snd c) ms" and ?lo = "filter (\<lambda>c. \<not> t \<le> snd c) ms"
  have "sort_key ?f ms = sort_matches ?hi @ sort_matches ?lo"
  proof (rule properties_for_sort_key)
    show "mset (sort_matches ?hi @ sort_matches ?lo) = mset ms" by simp
    have "sorted_wrt (\<lambda>x y. snd y \<le> snd x) (sort_matches ?hi @ sort_matches ?lo)"
      by (auto simp: sorted_wrt_append sort_matches_sorted)
    then show "sorted (map ?f (sort_matches ?hi @ sort_matches ?lo))"
      unfolding sorted_map by simp
    fix k assume "k \<in> set (sort_matches ?hi @ sort_matches ?lo)"
    have fk: "(\<lambda>x :: 'c label \<times> rat. - snd k = - snd x) = (\<lambda>x. snd x = snd k)" by auto
    have "filter (\<lambda>x. snd x = snd k) ?hi @ filter (\<lambda>x. snd x = snd k) ?lo =
          filter (\<lambda>x. snd x = snd k) ms"
    proof (cases "t \<le> snd k")
      case True
      then have "filter (\<lambda>x. snd x = snd k) ?lo = []" by (auto simp: filter_empty_conv)
      moreover have "filter (\<lambda>x. snd x = snd k) ?hi = filter (\<lambda>x. snd x = snd k) ms"
        using True by (auto intro!: filter_cong)
      ultimately show ?thesis by simp
    next
      case False
      then have "filter (\<lambda>x. snd x = snd k) ?hi = []" by (auto simp: filter_empty_conv)
      moreover have "filter (\<lambda>x. snd x = snd k) ?lo = filter (\<lambda>x. snd x = snd k) ms"
        using False by (auto intro!: filter_cong)
      ultimately show ?thesis by simp
    qed
    then show "filter (\<lambda>x. ?f k = ?f x) (sort_matches ?hi @ sort_matches ?lo) =
          filter (\<lambda>x. ?f k = ?f x) ms"
      unfolding fk by (simp only: filter_append sort_matches_stable)
  qed
  then show ?thesis by (simp add: sort_matches_def)
qed

lemma fuzzy_match_columns_lookup:
  "fuzzy_match_columns lower tcs scs t = Inr fm \<Longrightarrow>
   fm tc = (if tc \<in> set tcs \<and> qualifying lower tc scs t \<noteq> []
            then Some (take 3 (sort_matches (qualifying lower tc scs t))) else None)"
  by (auto simp: fuzzy_match_columns_def fuzzy_loop_eq split: if_splits)

lemma qualifying_empty:
  "qualifying lower tc scs t = [] \<longleftrightarrow> (\<forall>s \<in> set scs. score lower tc s < t)"
  by (auto simp: qualifying_def filter_empty_conv)

lemma qualifying_raise:
  "t1 \<le> t2 \<Longrightarrow>
   qualifying lower tc scs t2 = filter (\<lambda>c. t2 \<le> snd c) (qualifying lower tc scs t1)"
  by (auto simp: qualifying_def intro!: filter_cong)

text \<open>
  C8. For two names, compared as the matcher compares them, after \<^verbatim>\<open>lower()\<close>: names that
  are then equal score 1; names that then have no character in common score 0; every
  score lies in \<open>[0, 1]\<close>. The names are column names as the loaders give them, which are
  never empty, and \<^verbatim>\<open>lower()\<close> keeps a name non-empty: the two lower-cased names are not
  both empty. This holds for every \<open>lower\<close>, so for Python's on all of Unicode.
\<close>

theorem score_properties:
  "(lower template_name = lower source_name \<longrightarrow>
      score lower (Str template_name) (Str source_name) = 1) \<and>
   (set (lower template_name) \<inter> set (lower source_name) = {} \<and>
    (lower template_name \<noteq> [] \<or> lower source_name \<noteq> []) \<longrightarrow>
      score lower (Str template_name) (Str source_name) = 0) \<and>
   0 \<le> score lower (Str template_name) (Str source_name) \<and>
   score lower (Str template_name) (Str source_name) \<le> 1"
proof (intro conjI impI)
  assume "lower template_name = lower source_name"
  then show "score lower (Str template_name) (Str source_name) = 1"
    by (simp add: score_text ratio_same)
next
  assume "set (lower template_name) \<inter> set (lower source_name) = {} \<and>
          (lower template_name \<noteq> [] \<or> lower source_name \<noteq> [])"
  then show "score lower (Str template_name) (Str source_name) = 0"
    unfolding score_text by (intro ratio_disjoint) simp_all
next
  show "0 \<le> score lower (Str template_name) (Str source_name)"
    by (simp add: score_text ratio_ge_0)
  show "score lower (Str template_name) (Str source_name) \<le> 1"
    by (simp add: score_text ratio_le_1)
qed

theorem score_properties_witness:
  "ascii_lower ''Name'' = ascii_lower ''NAME'' \<and>
   score ascii_lower (Str ''Name'') (Str ''NAME'') = 1 \<and>
   set (ascii_lower ''Item'') \<inter> set (ascii_lower ''QUAN'') = {} \<and>
   ascii_lower ''Item'' \<noteq> [] \<and>
   score ascii_lower (Str ''Item'') (Str ''QUAN'') = 0 \<and>
   0 \<le> score ascii_lower (Str ''Amount'') (Str ''amt'') \<and>
   score ascii_lower (Str ''Amount'') (Str ''amt'') \<le> 1"
proof -
  have e: "ascii_lower ''Name'' = ascii_lower ''NAME''" by code_simp
  have d: "set (ascii_lower ''Item'') \<inter> set (ascii_lower ''QUAN'') = {}" by code_simp
  have n: "ascii_lower ''Item'' \<noteq> []" by (simp add: ascii_lower_def)
  from score_properties[of ascii_lower "''Name''" "''NAME''"] e
    score_properties[of ascii_lower "''Item''" "''QUAN''"] d n
    score_properties[of ascii_lower "''Amount''" "''amt''"]
  show ?thesis by simp
qed

text \<open>
  C4. Every candidate list in the result is sorted by descending score; among the entries
  of one score it lists, in source order, the first source columns with that score (the
  sort is stable); it has at most 3 entries, each a source column with its score, and
  each score reaches the threshold; it is never empty. A template column is absent from
  the result exactly when it has no qualifying candidate (or is not a template column).
  This holds for every threshold.
\<close>

theorem fuzzy_match_columns_candidates:
  assumes "fuzzy_match_columns lower template_columns source_columns threshold = Inr fuzzy_matches"
  shows "(\<forall>template_col candidates. fuzzy_matches template_col = Some candidates \<longrightarrow>
            sorted_wrt (\<lambda>x y. snd y \<le> snd x) candidates \<and>
            (\<forall>k. prefix (filter (\<lambda>c. snd c = k) candidates)
                   (filter (\<lambda>c. snd c = k)
                      (map (\<lambda>s. (s, score lower template_col s)) source_columns))) \<and>
            length candidates \<le> 3 \<and>
            (\<forall>c \<in> set candidates.
               threshold \<le> snd c \<and> fst c \<in> set source_columns \<and>
               snd c = score lower template_col (fst c)) \<and>
            candidates \<noteq> []) \<and>
         (\<forall>template_col. fuzzy_matches template_col = None \<longleftrightarrow>
            template_col \<notin> set template_columns \<or>
            (\<forall>s \<in> set source_columns. score lower template_col s < threshold))"
proof (intro conjI allI impI)
  fix tc cands
  assume some: "fuzzy_matches tc = Some cands"
  let ?ms = "qualifying lower tc source_columns threshold"
  let ?all = "map (\<lambda>s. (s, score lower tc s)) source_columns"
  from some fuzzy_match_columns_lookup[OF assms, of tc]
  have ne: "?ms \<noteq> []" and cands: "cands = take 3 (sort_matches ?ms)"
    by (auto split: if_splits)
  show "sorted_wrt (\<lambda>x y. snd y \<le> snd x) cands"
    unfolding cands by (rule sorted_wrt_take) (rule sort_matches_sorted)
  show "length cands \<le> 3" by (simp add: cands)
  show "cands \<noteq> []" using ne by (simp add: cands)
  show "prefix (filter (\<lambda>c. snd c = k) cands) (filter (\<lambda>c. snd c = k) ?all)" for k
  proof -
    have "prefix (filter (\<lambda>c. snd c = k) cands) (filter (\<lambda>c. snd c = k) (sort_matches ?ms))"
      unfolding cands by (intro filter_mono_prefix take_is_prefix)
    also have "filter (\<lambda>c. snd c = k) (sort_matches ?ms) = filter (\<lambda>c. snd c = k) ?ms"
      by (rule sort_matches_stable)
    also have "\<dots> = filter (\<lambda>c. threshold \<le> k) (filter (\<lambda>c. snd c = k) ?all)"
      by (auto simp: qualifying_def intro!: filter_cong)
    also have "prefix \<dots> (filter (\<lambda>c. snd c = k) ?all)"
      by (cases "threshold \<le> k") simp_all
    finally show ?thesis .
  qed
  show "\<forall>c \<in> set cands. threshold \<le> snd c \<and> fst c \<in> set source_columns \<and>
          snd c = score lower tc (fst c)"
  proof
    fix c assume "c \<in> set cands"
    then have "c \<in> set ?ms" unfolding cands by (auto dest: in_set_takeD)
    then show "threshold \<le> snd c \<and> fst c \<in> set source_columns \<and> snd c = score lower tc (fst c)"
      by (auto simp: qualifying_def)
  qed
next
  fix tc
  show "fuzzy_matches tc = None \<longleftrightarrow>
          tc \<notin> set template_columns \<or> (\<forall>s \<in> set source_columns. score lower tc s < threshold)"
    using fuzzy_match_columns_lookup[OF assms, of tc]
    by (simp add: qualifying_empty)
qed

theorem fuzzy_match_columns_candidates_witness:
  "\<exists>fuzzy_matches.
     fuzzy_match_columns ascii_lower [Str ''ab'', Str ''zz'']
       [Str ''ax'', Str ''bx'', Str ''ab'', Str ''xb''] (1/2) = Inr fuzzy_matches \<and>
     fuzzy_matches (Str ''ab'') = Some [(Str ''ab'', 1), (Str ''ax'', 1/2), (Str ''bx'', 1/2)] \<and>
     sorted_wrt (\<lambda>x y. snd y \<le> snd x) [(Str ''ab'', 1 :: rat), (Str ''ax'', 1/2), (Str ''bx'', 1/2)] \<and>
     prefix (filter (\<lambda>c. snd c = 1/2) [(Str ''ab'', 1), (Str ''ax'', 1/2), (Str ''bx'', 1/2)])
       (filter (\<lambda>c. snd c = 1/2)
          (map (\<lambda>s. (s, score ascii_lower (Str ''ab'') s))
             [Str ''ax'', Str ''bx'', Str ''ab'', Str ''xb''])) \<and>
     length [(Str ''ab'', 1 :: rat), (Str ''ax'', 1/2), (Str ''bx'', 1/2)] \<le> 3 \<and>
     fuzzy_matches (Str ''zz'') = None"
proof -
  let ?tcs = "[Str ''ab'', Str ''zz'']" and ?scs = "[Str ''ax'', Str ''bx'', Str ''ab'', Str ''xb'']"
  obtain fm where eq: "fuzzy_match_columns ascii_lower ?tcs ?scs (1/2) = Inr fm"
    by (simp add: fuzzy_match_columns_def fuzzy_loop_eq is_text_def)
  have q: "take 3 (sort_matches (qualifying ascii_lower (Str ''ab'') ?scs (1/2))) =
             [(Str ''ab'', 1), (Str ''ax'', 1/2), (Str ''bx'', 1/2)]"
    and z: "qualifying ascii_lower (Str ''zz'') ?scs (1/2) = []"
    by code_simp+
  have ab: "fm (Str ''ab'') = Some [(Str ''ab'', 1), (Str ''ax'', 1/2), (Str ''bx'', 1/2)]"
    using fuzzy_match_columns_lookup[OF eq, of "Str ''ab''"] q by (auto simp: sort_matches_def split: if_splits)
  have zz: "fm (Str ''zz'') = None"
    using fuzzy_match_columns_lookup[OF eq, of "Str ''zz''"] z by simp
  from fuzzy_match_columns_candidates[OF eq]
  have "\<forall>template_col candidates. fm template_col = Some candidates \<longrightarrow>
            sorted_wrt (\<lambda>x y. snd y \<le> snd x) candidates \<and>
            (\<forall>k. prefix (filter (\<lambda>c. snd c = k) candidates)
                   (filter (\<lambda>c. snd c = k)
                      (map (\<lambda>s. (s, score ascii_lower template_col s)) ?scs))) \<and>
            length candidates \<le> 3 \<and>
            (\<forall>c \<in> set candidates.
               1/2 \<le> snd c \<and> fst c \<in> set ?scs \<and>
               snd c = score ascii_lower template_col (fst c)) \<and>
            candidates \<noteq> []"
    by (rule conjunct1)
  from this[rule_format, OF ab] eq ab zz show ?thesis
    by blast
qed

text \<open>
  C5. Lowering the threshold keeps every candidate that was kept: the list of a template
  column at the higher threshold is a prefix of its list at the lower one.
\<close>

theorem fuzzy_match_columns_monotone:
  assumes "t1 \<le> t2"
    and "fuzzy_match_columns lower template_columns source_columns t1 = Inr fuzzy_matches1"
    and "fuzzy_match_columns lower template_columns source_columns t2 = Inr fuzzy_matches2"
    and "fuzzy_matches2 template_col = Some candidates2"
  shows "\<exists>candidates1. fuzzy_matches1 template_col = Some candidates1 \<and>
           prefix candidates2 candidates1 \<and> set candidates2 \<subseteq> set candidates1"
proof -
  let ?m1 = "qualifying lower template_col source_columns t1"
  let ?m2 = "qualifying lower template_col source_columns t2"
  from assms(4) fuzzy_match_columns_lookup[OF assms(3), of template_col]
  have tc: "template_col \<in> set template_columns" and ne2: "?m2 \<noteq> []"
    and c2: "candidates2 = take 3 (sort_matches ?m2)"
    by (auto split: if_splits)
  have m2: "?m2 = filter (\<lambda>c. t2 \<le> snd c) ?m1"
    by (rule qualifying_raise[OF assms(1)])
  with ne2 have ne1: "?m1 \<noteq> []" by auto
  have "sort_matches ?m1 = sort_matches ?m2 @ sort_matches (filter (\<lambda>c. \<not> t2 \<le> snd c) ?m1)"
    unfolding m2 by (rule sort_matches_split)
  then have "prefix (sort_matches ?m2) (sort_matches ?m1)" by simp
  then have p: "prefix (take 3 (sort_matches ?m2)) (take 3 (sort_matches ?m1))"
    by (auto simp: prefix_def take_append)
  have "fuzzy_matches1 template_col = Some (take 3 (sort_matches ?m1))"
    using fuzzy_match_columns_lookup[OF assms(2), of template_col] tc ne1 by simp
  with p c2 show ?thesis by (auto dest: set_mono_prefix)
qed

theorem fuzzy_match_columns_monotone_witness:
  "(1/2 :: rat) \<le> 7/10 \<and>
   (\<exists>fuzzy_matches1 fuzzy_matches2 candidates1.
      fuzzy_match_columns ascii_lower [Str ''ab'', Str ''zz'']
        [Str ''ax'', Str ''bx'', Str ''ab'', Str ''xb''] (1/2) = Inr fuzzy_matches1 \<and>
      fuzzy_match_columns ascii_lower [Str ''ab'', Str ''zz'']
        [Str ''ax'', Str ''bx'', Str ''ab'', Str ''xb''] (7/10) = Inr fuzzy_matches2 \<and>
      fuzzy_matches2 (Str ''ab'') = Some [(Str ''ab'', 1)] \<and>
      fuzzy_matches1 (Str ''ab'') = Some candidates1 \<and>
      prefix [(Str ''ab'', 1)] candidates1 \<and> set [(Str ''ab'', 1)] \<subseteq> set candidates1)"
proof -
  let ?tcs = "[Str ''ab'', Str ''zz'']" and ?scs = "[Str ''ax'', Str ''bx'', Str ''ab'', Str ''xb'']"
  have le: "(1/2 :: rat) \<le> 7/10" by simp
  obtain fm1 where e1: "fuzzy_match_columns ascii_lower ?tcs ?scs (1/2) = Inr fm1"
    by (simp add: fuzzy_match_columns_def fuzzy_loop_eq is_text_def)
  obtain fm2 where e2: "fuzzy_match_columns ascii_lower ?tcs ?scs (7/10) = Inr fm2"
    by (simp add: fuzzy_match_columns_def fuzzy_loop_eq is_text_def)
  have q: "take 3 (sort_matches (qualifying ascii_lower (Str ''ab'') ?scs (7/10))) =
             [(Str ''ab'', 1)]"
    by code_simp
  have ab: "fm2 (Str ''ab'') = Some [(Str ''ab'', 1)]"
    using fuzzy_match_columns_lookup[OF e2, of "Str ''ab''"] q by (auto simp: sort_matches_def split: if_splits)
  from fuzzy_match_columns_monotone[OF le e1 e2 ab] le e1 e2 ab show ?thesis
    by blast
qed

text \<open>
  C7. The matcher does not look at the range of its threshold. For every threshold, inside
  \<open>[1/2, 1]\<close> or not, the call on text labels returns the dictionary that gives each
  template column with a qualifying candidate its candidates of a score at or above the
  threshold, in descending stable order, cut to 3. Whatever the threshold, the call raises
  \<^verbatim>\<open>AttributeError\<close> exactly when a template label meets a source label and one of the
  two is not a text.
\<close>

theorem fuzzy_match_columns_any_threshold:
  "fuzzy_match_columns lower template_columns source_columns threshold =
     (if \<exists>template_col \<in> set template_columns. \<exists>source_col \<in> set source_columns.
           \<not> (is_text template_col \<and> is_text source_col)
      then Inl AttributeError
      else Inr (\<lambda>template_col.
             if template_col \<in> set template_columns \<and>
                filter (\<lambda>c. threshold \<le> snd c)
                  (map (\<lambda>s. (s, score lower template_col s)) source_columns) \<noteq> []
             then Some (take 3 (sort_key (\<lambda>c. - snd c)
                    (filter (\<lambda>c. threshold \<le> snd c)
                       (map (\<lambda>s. (s, score lower template_col s)) source_columns))))
             else None))"
  unfolding fuzzy_match_columns_def fuzzy_loop_eq qualifying_def sort_matches_def
  by simp

theorem fuzzy_match_columns_any_threshold_witness:
  "(\<exists>fuzzy_matches.
      fuzzy_match_columns ascii_lower [Str ''Name''] [Str ''Notes'', Str ''name''] (3/2) =
        Inr fuzzy_matches \<and>
      fuzzy_matches (Str ''Name'') = None) \<and>
   fuzzy_match_columns ascii_lower [Str ''Name'', Num 2024] [Str ''name''] (7/10) =
     Inl AttributeError"
proof -
  have q: "filter (\<lambda>c. 3/2 \<le> snd c)
             (map (\<lambda>s. (s, score ascii_lower (Str ''Name'') s)) [Str ''Notes'', Str ''name'']) = []"
    by code_simp
  have "fuzzy_match_columns ascii_lower [Str ''Name'', Num 2024] [Str ''name''] (7/10) =
          Inl AttributeError"
    using fuzzy_match_columns_any_threshold[of ascii_lower "[Str ''Name'', Num 2024]"
        "[Str ''name'']" "7/10"]
    by (simp add: is_text_def)
  moreover have "\<exists>fuzzy_matches.
      fuzzy_match_columns ascii_lower [Str ''Name''] [Str ''Notes'', Str ''name''] (3/2) =
        Inr fuzzy_matches \<and>
      fuzzy_matches (Str ''Name'') = None"
    using fuzzy_match_columns_any_threshold[of ascii_lower "[Str ''Name'']"
        "[Str ''Notes'', Str ''name'']" "3/2"] q
    by (simp add: is_text_def)
  ultimately show ?thesis by simp
qed

text \<open>
  The threshold \<open>1/5\<close> lies outside \<open>[1/2, 1]\<close>; the matcher runs with it and keeps a
  candidate of score \<open>4/9\<close>. The names are ASCII texts, on which \<^verbatim>\<open>lower()\<close> is
  \<open>ascii_lower\<close>.
\<close>

theorem fuzzy_match_columns_threshold_counterexample:
  "\<not> (1/2 \<le> (1/5 :: rat) \<and> (1/5 :: rat) \<le> 1) \<and>
   (\<exists>fuzzy_matches.
      fuzzy_match_columns ascii_lower [Str ''Name''] [Str ''Notes''] (1/5) = Inr fuzzy_matches \<and>
      fuzzy_matches (Str ''Name'') = Some [(Str ''Notes'', 4/9)])"
proof -
  obtain fm where eq: "fuzzy_match_columns ascii_lower [Str ''Name''] [Str ''Notes''] (1/5) = Inr fm"
    by (simp add: fuzzy_match_columns_def fuzzy_loop_eq is_text_def)
  have q: "take 3 (sort_matches (qualifying ascii_lower (Str ''Name'') [Str ''Notes''] (1/5))) =
             [(Str ''Notes'', 4/9)]"
    by code_simp
  have "fm (Str ''Name'') = Some [(Str ''Notes'', 4/9)]"
    using fuzzy_match_columns_lookup[OF eq, of "Str ''Name''"] q by (auto simp: sort_matches_def split: if_splits)
  with eq show ?thesis by simp
qed

section \<open>Data frames\<close>

text \<open>
  A pandas \<^verbatim>\<open>DataFrame\<close> with a \<^verbatim>\<open>RangeIndex\<close>: the columns in their order, each a
  label with its values, and the length of the index (what \<^verbatim>\<open>len(df)\<close> returns). A cell
  is \<open>Some v\<close> or the missing marker \<open>None\<close> (pandas' \<^verbatim>\<open>NaN\<close>).
\<close>

record ('c, 'v) dataframe =
  columns :: "('c label \<times> 'v option list) list"
  index_len :: nat

definition labels :: "('c, 'v) dataframe \<Rightarrow> 'c label list" where
  "labels df = map fst (columns df)"

text \<open>
  The frames \<^verbatim>\<open>load_source_file\<close> can store: \<^verbatim>\<open>read_excel\<close> and \<^verbatim>\<open>read_csv\<close> make
  repeated header names unique, so the labels are distinct, and every column has one
  value per row. Nothing else is required of a label: it may be a text, a number (the
  number \<open>0\<close> too) or another object.
\<close>

definition wf_dataframe :: "('c, 'v) dataframe \<Rightarrow> bool" where
  "wf_dataframe df =
     (distinct (labels df) \<and>
      list_all (\<lambda>col. length (snd col) = index_len df) (columns df))"

text \<open>\<^verbatim>\<open>pd.DataFrame(columns=cols)\<close> and \<^verbatim>\<open>pd.DataFrame(index=range(n), columns=cols)\<close>.\<close>

definition DataFrame_columns :: "'c label list \<Rightarrow> ('c, 'v) dataframe" where
  "DataFrame_columns cols = \<lparr>columns = map (\<lambda>c. (c, [])) cols, index_len = 0\<rparr>"

definition DataFrame_index_columns :: "nat \<Rightarrow> 'c label list \<Rightarrow> ('c, 'v) dataframe" where
  "DataFrame_index_columns n cols =
     \<lparr>columns = map (\<lambda>c. (c, replicate n None)) cols, index_len = n\<rparr>"

text \<open>\<^verbatim>\<open>df[col].values\<close>: \<^verbatim>\<open>KeyError\<close> when the frame has no such column.\<close>

definition getitem_values :: "('c, 'v) dataframe \<Rightarrow> 'c label \<Rightarrow> error + 'v option list" where
  "getitem_values df col =
     (case map_of (columns df) col of None \<Rightarrow> Inl KeyError | Some vals \<Rightarrow> Inr vals)"

text \<open>
  \<^verbatim>\<open>df[key] = values\<close> for an array. A frame whose index is empty takes its index from a
  non-empty array, and its columns are filled with \<^verbatim>\<open>NaN\<close> (\<^verbatim>\<open>_ensure_valid_index\<close>).
  Then the lengths must agree (\<^verbatim>\<open>ValueError\<close> otherwise); an existing label has its
  values replaced, a new label is inserted as the last column. The frames assigned to
  here carry the template's labels, which \<^verbatim>\<open>read_excel\<close> made distinct: a label occurs
  once.
\<close>

definition ensure_valid_index :: "('c, 'v) dataframe \<Rightarrow> 'v option list \<Rightarrow> ('c, 'v) dataframe" where
  "ensure_valid_index df vals =
     (if index_len df = 0 \<and> length vals > 0
      then \<lparr>columns = map (\<lambda>col. (fst col, replicate (length vals) None)) (columns df),
            index_len = length vals\<rparr>
      else df)"

definition set_column :: "('c, 'v) dataframe \<Rightarrow> 'c label \<Rightarrow> 'v option list \<Rightarrow> ('c, 'v) dataframe" where
  "set_column df key vals =
     (if key \<in> set (labels df)
      then df\<lparr>columns := map (\<lambda>col. if fst col = key then (key, vals) else col) (columns df)\<rparr>
      else df\<lparr>columns := columns df @ [(key, vals)]\<rparr>)"

definition setitem :: "('c, 'v) dataframe \<Rightarrow> 'c label \<Rightarrow> 'v option list \<Rightarrow> error + ('c, 'v) dataframe" where
  "setitem df key vals =
     (let df' = ensure_valid_index df vals
      in if length vals \<noteq> index_len df' then Inl ValueError
         else Inr (set_column df' key vals))"

section \<open>The reshaper\<close>

text \<open>
  \<^verbatim>\<open>ColumnMapper.create_mapped_dataframe\<close>. \<open>column_mapping\<close> is the dictionary as the
  list of its items in insertion order; a value is a label or \<open>None\<close>. Python's
  \<^verbatim>\<open>if source_col and source_col in self.source_df.columns\<close> holds for a label that is
  true as a condition and labels a source column: it fails for \<open>None\<close>, for the empty
  text and for the number \<open>0\<close>, also where the source has a column of that label. Both
  loops are \<open>fill_columns\<close>; the first slices the values with
  \<^verbatim>\<open>[:len(self.source_df)]\<close>, the second does not.
\<close>

fun fill_columns ::
  "('v option list \<Rightarrow> 'v option list) \<Rightarrow> ('c, 'v) dataframe \<Rightarrow>
   ('c label \<times> 'c label option) list \<Rightarrow> ('c, 'v) dataframe \<Rightarrow> error + ('c, 'v) dataframe" where
  "fill_columns slice source_df [] mapped_df = Inr mapped_df"
| "fill_columns slice source_df ((template_col, source_col) # items) mapped_df =
     (case source_col of
        None \<Rightarrow> fill_columns slice source_df items mapped_df
      | Some s \<Rightarrow>
          if truthy s \<and> s \<in> set (labels source_df) then
            (case getitem_values source_df s of
               Inl e \<Rightarrow> Inl e
             | Inr vals \<Rightarrow>
                 (case setitem mapped_df template_col (slice vals) of
                    Inl e \<Rightarrow> Inl e
                  | Inr mapped_df' \<Rightarrow> fill_columns slice source_df items mapped_df'))
          else fill_columns slice source_df items mapped_df)"

definition create_mapped_dataframe ::
  "'c label list \<Rightarrow> ('c, 'v) dataframe \<Rightarrow> ('c label \<times> 'c label option) list \<Rightarrow>
   error + ('c, 'v) dataframe" where
  "create_mapped_dataframe template_columns source_df column_mapping =
     (case fill_columns (take (index_len source_df)) source_df column_mapping
             (DataFrame_columns template_columns) of
        Inl e \<Rightarrow> Inl e
      | Inr mapped_df \<Rightarrow>
          if index_len mapped_df = 0 \<and> index_len source_df > 0 then
            fill_columns (\<lambda>vals. vals) source_df column_mapping
              (DataFrame_index_columns (index_len source_df) template_columns)
          else Inr mapped_df)"

text \<open>
  What the reshaper computes, stated without the frame's empty-index state: starting from
  the frame of \<open>n\<close> rows that is \<^verbatim>\<open>NaN\<close> throughout, every item that passes the guard
  sets its column to the values of the source column.
\<close>

definition passes_guard :: "('c, 'v) dataframe \<Rightarrow> 'c label option \<Rightarrow> bool" where
  "passes_guard source_df source_col =
     (case source_col of
        None \<Rightarrow> False
      | Some s \<Rightarrow> truthy s \<and> s \<in> set (labels source_df))"

fun apply_items ::
  "('c, 'v) dataframe \<Rightarrow> ('c label \<times> 'c label option) list \<Rightarrow> ('c, 'v) dataframe \<Rightarrow>
   ('c, 'v) dataframe" where
  "apply_items source_df [] df = df"
| "apply_items source_df ((template_col, source_col) # items) df =
     (if passes_guard source_df source_col
      then apply_items source_df items
             (set_column df template_col (the (map_of (columns source_df) (the source_col))))
      else apply_items source_df items df)"

lemma getitem_values_label:
  assumes "s \<in> set (labels df)"
  shows "getitem_values df s = Inr (the (map_of (columns df) s))"
proof -
  from assms obtain vals where "map_of (columns df) s = Some vals"
    unfolding labels_def by (metis domIff dom_map_of_conv_image_fst not_Some_eq set_map)
  then show ?thesis by (simp add: getitem_values_def)
qed

lemma column_length:
  assumes "list_all (\<lambda>col. length (snd col) = n) (columns df)" "s \<in> set (labels df)"
  shows "length (the (map_of (columns df) s)) = n"
proof -
  from assms(2) obtain vals where v: "map_of (columns df) s = Some vals"
    unfolding labels_def by (metis domIff dom_map_of_conv_image_fst not_Some_eq set_map)
  then have "(s, vals) \<in> set (columns df)" by (rule map_of_SomeD)
  with assms(1) v show ?thesis by (auto simp: list_all_iff)
qed

lemma index_len_set_column [simp]: "index_len (set_column df key vals) = index_len df"
  by (simp add: set_column_def)

lemma setitem_full:
  assumes "length vals = index_len df"
  shows "setitem df key vals = Inr (set_column df key vals)"
  using assms by (auto simp: setitem_def ensure_valid_index_def Let_def)

lemma setitem_empty:
  assumes "length vals > 0"
  shows "setitem (DataFrame_columns cols) key vals =
           Inr (set_column (DataFrame_index_columns (length vals) cols) key vals)"
  using assms
  by (simp add: setitem_def ensure_valid_index_def Let_def DataFrame_columns_def
      DataFrame_index_columns_def comp_def)

lemma fill_columns_full:
  assumes "list_all (\<lambda>col. length (snd col) = n) (columns source_df)"
    and "index_len df = n" and "\<And>vals. length vals = n \<Longrightarrow> slice vals = vals"
  shows "fill_columns slice source_df items df = Inr (apply_items source_df items df)"
  using assms(2)
proof (induction items arbitrary: df)
  case Nil
  then show ?case by simp
next
  case (Cons item items)
  obtain template_col source_col where item: "item = (template_col, source_col)"
    by (cases item) auto
  show ?case
  proof (cases "passes_guard source_df source_col")
    case False
    with Cons item show ?thesis
      by (auto simp: passes_guard_def split: option.splits)
  next
    case True
    then obtain s where s: "source_col = Some s" "truthy s" "s \<in> set (labels source_df)"
      by (auto simp: passes_guard_def split: option.splits)
    let ?vals = "the (map_of (columns source_df) s)"
    have len: "length ?vals = n" by (rule column_length[OF assms(1) s(3)])
    then have sl: "slice ?vals = ?vals" by (rule assms(3))
    have set: "setitem df template_col ?vals = Inr (set_column df template_col ?vals)"
      by (rule setitem_full) (simp add: len Cons.prems)
    have "fill_columns slice source_df items (set_column df template_col ?vals) =
            Inr (apply_items source_df items (set_column df template_col ?vals))"
      by (rule Cons.IH) (simp add: Cons.prems)
    then show ?thesis
      using True s item set sl by (simp add: getitem_values_label)
  qed
qed

lemma fill_columns_empty:
  fixes source_df :: "('c, 'v) dataframe"
  assumes "list_all (\<lambda>col. length (snd col) = n) (columns source_df)" and "n > 0"
    and "\<And>vals. length vals = n \<Longrightarrow> slice vals = vals"
  shows "fill_columns slice source_df items (DataFrame_columns cols) =
           Inr (if \<exists>item \<in> set items. passes_guard source_df (snd item)
                then apply_items source_df items (DataFrame_index_columns n cols)
                else DataFrame_columns cols)"
proof (induction items)
  case Nil
  then show ?case by simp
next
  case (Cons item items)
  obtain template_col source_col where item: "item = (template_col, source_col)"
    by (cases item) auto
  show ?case
  proof (cases "passes_guard source_df source_col")
    case False
    with Cons item show ?thesis
      by (auto simp: passes_guard_def split: option.splits)
  next
    case True
    then obtain s where s: "source_col = Some s" "truthy s" "s \<in> set (labels source_df)"
      by (auto simp: passes_guard_def split: option.splits)
    let ?vals = "the (map_of (columns source_df) s)"
    let ?full = "DataFrame_index_columns n cols :: ('c, 'v) dataframe"
    have len: "length ?vals = n" by (rule column_length[OF assms(1) s(3)])
    then have sl: "slice ?vals = ?vals" by (rule assms(3))
    have set: "setitem (DataFrame_columns cols) template_col ?vals =
                 Inr (set_column ?full template_col ?vals)"
      using setitem_empty[of ?vals cols template_col] len assms(2) by simp
    have "fill_columns slice source_df items (set_column ?full template_col ?vals) =
            Inr (apply_items source_df items (set_column ?full template_col ?vals))"
      by (rule fill_columns_full[OF assms(1) _ assms(3)]) (simp_all add: DataFrame_index_columns_def)
    then show ?thesis
      using True s item set sl by (simp add: getitem_values_label)
  qed
qed

lemma create_mapped_dataframe_eq:
  fixes source_df :: "('c, 'v) dataframe"
  assumes "list_all (\<lambda>col. length (snd col) = index_len source_df) (columns source_df)"
  shows "create_mapped_dataframe template_columns source_df column_mapping =
           Inr (apply_items source_df column_mapping
                  (DataFrame_index_columns (index_len source_df) template_columns))"
proof (cases "index_len source_df = 0")
  case True
  have e: "(DataFrame_columns template_columns :: ('c, 'v) dataframe) =
             DataFrame_index_columns 0 template_columns"
    by (simp add: DataFrame_columns_def DataFrame_index_columns_def)
  have "fill_columns (take (index_len source_df)) source_df column_mapping
          (DataFrame_index_columns 0 template_columns) =
        Inr (apply_items source_df column_mapping (DataFrame_index_columns 0 template_columns))"
    by (rule fill_columns_full[OF assms]) (simp_all add: True DataFrame_index_columns_def)
  then show ?thesis
    by (simp add: create_mapped_dataframe_def e True)
next
  case False
  let ?n = "index_len source_df"
  let ?full = "DataFrame_index_columns ?n template_columns :: ('c, 'v) dataframe"
  have first: "fill_columns (take ?n) source_df column_mapping (DataFrame_columns template_columns) =
           Inr (if \<exists>item \<in> set column_mapping. passes_guard source_df (snd item)
                then apply_items source_df column_mapping ?full
                else DataFrame_columns template_columns)"
    by (rule fill_columns_empty[OF assms]) (use False in simp_all)
  show ?thesis
  proof (cases "\<exists>item \<in> set column_mapping. passes_guard source_df (snd item)")
    case True
    have "index_len (apply_items source_df column_mapping ?full) = ?n"
    proof -
      have "index_len (apply_items source_df items df) = index_len df" for items and df :: "('c, 'v) dataframe"
        by (induction items arbitrary: df) auto
      then show ?thesis by (simp add: DataFrame_index_columns_def)
    qed
    with first True False show ?thesis
      by (simp add: create_mapped_dataframe_def)
  next
    case none: False
    have second: "fill_columns (\<lambda>vals. vals) source_df column_mapping ?full =
                    Inr (apply_items source_df column_mapping ?full)"
      by (rule fill_columns_full[OF assms]) (simp_all add: DataFrame_index_columns_def)
    from first none False second show ?thesis
      by (simp add: create_mapped_dataframe_def DataFrame_columns_def)
  qed
qed

lemma map_of_set_column:
  fixes df :: "('c, 'v) dataframe"
  shows "map_of (columns (set_column df key vals)) c =
     (if c = key then Some vals else map_of (columns df) c)"
proof (cases "key \<in> set (labels df)")
  case True
  have "map_of (map (\<lambda>col. if fst col = key then (key, vals) else col) cols) c =
          (if c = key \<and> key \<in> fst ` set cols then Some vals else map_of cols c)"
    for cols :: "('c label \<times> 'v option list) list"
    by (induction cols) force+
  with True show ?thesis by (simp add: set_column_def labels_def)
next
  case False
  then have "map_of (columns df) key = None"
    by (simp add: labels_def map_of_eq_None_iff)
  with False show ?thesis
    by (auto simp: set_column_def map_add_def split: option.splits)
qed

lemma labels_set_column:
  fixes df :: "('c, 'v) dataframe"
  shows "labels (set_column df key vals) =
     (if key \<in> set (labels df) then labels df else labels df @ [key])"
proof -
  have "map fst (map (\<lambda>col. if fst col = key then (key, vals) else col) cols) = map fst cols"
    for cols :: "('c label \<times> 'v option list) list"
    by (induction cols) auto
  then show ?thesis by (simp add: set_column_def labels_def)
qed

lemma index_len_apply_items [simp]:
  "index_len (apply_items source_df items df) = index_len df"
  by (induction items arbitrary: df) auto

lemma labels_apply_items:
  "fst ` set items \<subseteq> set (labels df) \<Longrightarrow> labels (apply_items source_df items df) = labels df"
  by (induction items arbitrary: df) (auto simp: labels_set_column)

lemma lengths_set_column:
  assumes "list_all (\<lambda>col. length (snd col) = n) (columns df)" "length vals = n"
  shows "list_all (\<lambda>col. length (snd col) = n) (columns (set_column df key vals))"
  using assms by (auto simp: set_column_def list_all_iff)

lemma lengths_apply_items:
  assumes "list_all (\<lambda>col. length (snd col) = n) (columns source_df)"
    and "list_all (\<lambda>col. length (snd col) = n) (columns df)"
  shows "list_all (\<lambda>col. length (snd col) = n) (columns (apply_items source_df items df))"
  using assms(2)
proof (induction items arbitrary: df)
  case Nil
  then show ?case by simp
next
  case (Cons item items)
  obtain template_col source_col where item: "item = (template_col, source_col)"
    by (cases item) auto
  show ?case
  proof (cases "passes_guard source_df source_col")
    case False
    with Cons item show ?thesis by simp
  next
    case True
    then have "the source_col \<in> set (labels source_df)"
      by (auto simp: passes_guard_def split: option.splits)
    then have "length (the (map_of (columns source_df) (the source_col))) = n"
      by (rule column_length[OF assms(1)])
    with Cons True item show ?thesis
      by (simp add: lengths_set_column)
  qed
qed

lemma map_of_apply_items:
  assumes "distinct (map fst items)"
  shows "map_of (columns (apply_items source_df items df)) c =
     (case map_of items c of
        Some source_col \<Rightarrow>
          if passes_guard source_df source_col
          then Some (the (map_of (columns source_df) (the source_col)))
          else map_of (columns df) c
      | None \<Rightarrow> map_of (columns df) c)"
  using assms
proof (induction items arbitrary: df)
  case Nil
  then show ?case by simp
next
  case (Cons item items)
  obtain template_col source_col where item: "item = (template_col, source_col)"
    by (cases item) auto
  from Cons.prems item have d: "distinct (map fst items)" and nk: "template_col \<notin> fst ` set items"
    by auto
  from nk have none: "map_of items template_col = None"
    by (simp add: map_of_eq_None_iff)
  show ?case
    using Cons.IH[OF d] item none
    by (auto simp: map_of_set_column split: option.splits)
qed

lemma map_of_full:
  "map_of (columns (DataFrame_index_columns n cols)) c =
     (if c \<in> set cols then Some (replicate n None) else None)"
  by (induction cols) (auto simp: DataFrame_index_columns_def)

lemma labels_full [simp]: "labels (DataFrame_index_columns n cols) = cols"
  by (simp add: labels_def DataFrame_index_columns_def comp_def)

lemma lengths_full:
  "list_all (\<lambda>col. length (snd col) = n) (columns (DataFrame_index_columns n cols))"
  by (simp add: DataFrame_index_columns_def list_all_iff)

lemma wf_lengths:
  "wf_dataframe df \<Longrightarrow> list_all (\<lambda>col. length (snd col) = index_len df) (columns df)"
  by (simp add: wf_dataframe_def)

text \<open>
  C9. For a source frame as the loader stores it and a mapping whose named source columns
  all exist in it, the reshaper returns a frame: no exception is possible, whatever the
  number of rows.
\<close>

theorem create_mapped_dataframe_total:
  assumes "wf_dataframe source_df"
    and "\<forall>item \<in> set column_mapping. \<forall>s. snd item = Some s \<longrightarrow> s \<in> set (labels source_df)"
  shows "\<exists>mapped_df.
           create_mapped_dataframe template_columns source_df column_mapping = Inr mapped_df"
  using create_mapped_dataframe_eq[OF wf_lengths[OF assms(1)]] by blast

theorem create_mapped_dataframe_total_witness:
  "wf_dataframe \<lparr>columns = [(Str ''name'', [] :: nat option list), (Str ''amt'', [])], index_len = 0\<rparr> \<and>
   set (labels \<lparr>columns = [(Str ''name'', [] :: nat option list), (Str ''amt'', [])], index_len = 0\<rparr>) =
     {Str ''name'', Str ''amt''} \<and>
   (\<exists>mapped_df.
      create_mapped_dataframe [Str ''Name'', Str ''Amount'']
        \<lparr>columns = [(Str ''name'', [] :: nat option list), (Str ''amt'', [])], index_len = 0\<rparr>
        [(Str ''Name'', Some (Str ''name'')), (Str ''Amount'', None)] = Inr mapped_df)"
proof -
  let ?src = "\<lparr>columns = [(Str ''name'', [] :: nat option list), (Str ''amt'', [])], index_len = 0\<rparr>"
  have wf: "wf_dataframe ?src" by (simp add: wf_dataframe_def labels_def)
  have pre: "\<forall>item \<in> set [(Str ''Name'', Some (Str ''name'')), (Str ''Amount'', None)].
               \<forall>s. snd item = Some s \<longrightarrow> s \<in> set (labels ?src)"
    by (simp add: labels_def)
  from create_mapped_dataframe_total[OF wf pre, of "[Str ''Name'', Str ''Amount'']"] wf
  show ?thesis by (simp add: labels_def)
qed

text \<open>
  C10. The reshaper checks every item itself. An item whose source column is \<open>None\<close>, is
  false as a condition (the empty text, and the number \<open>0\<close>) or is not a label of the
  source frame is skipped: the result is the one for the mapping without such items, no
  exception is raised, and the item's template column holds the missing marker in every
  row.
\<close>

theorem create_mapped_dataframe_skips:
  fixes source_df :: "('c, 'v) dataframe"
  assumes "wf_dataframe source_df" and "distinct (map fst column_mapping)"
  shows "create_mapped_dataframe template_columns source_df column_mapping =
           create_mapped_dataframe template_columns source_df
             (filter (\<lambda>item. \<not> (snd item = None \<or>
                               (\<exists>s. snd item = Some s \<and> \<not> truthy s) \<or>
                               (\<exists>s. snd item = Some s \<and> s \<notin> set (labels source_df))))
                column_mapping) \<and>
         (\<exists>mapped_df.
            create_mapped_dataframe template_columns source_df column_mapping = Inr mapped_df \<and>
            (\<forall>item \<in> set column_mapping.
               (snd item = None \<or>
                (\<exists>s. snd item = Some s \<and> \<not> truthy s) \<or>
                (\<exists>s. snd item = Some s \<and> s \<notin> set (labels source_df))) \<longrightarrow>
               fst item \<in> set template_columns \<longrightarrow>
               map_of (columns mapped_df) (fst item) =
                 Some (replicate (index_len source_df) None)))"
proof -
  let ?bad = "\<lambda>item :: 'c label \<times> 'c label option.
                snd item = None \<or> (\<exists>s. snd item = Some s \<and> \<not> truthy s) \<or>
                (\<exists>s. snd item = Some s \<and> s \<notin> set (labels source_df))"
  let ?full = "DataFrame_index_columns (index_len source_df) template_columns :: ('c, 'v) dataframe"
  have bad: "?bad item \<longleftrightarrow> \<not> passes_guard source_df (snd item)" for item
    by (cases "snd item") (auto simp: passes_guard_def)
  have skip: "apply_items source_df (filter (\<lambda>item. \<not> ?bad item) items) df =
                apply_items source_df items df" for items and df :: "('c, 'v) dataframe"
  proof (induction items arbitrary: df)
    case Nil
    show ?case by simp
  next
    case (Cons item items)
    then show ?case by (cases item) (simp add: bad)
  qed
  note eq = create_mapped_dataframe_eq[OF wf_lengths[OF assms(1)]]
  have "create_mapped_dataframe template_columns source_df column_mapping =
           create_mapped_dataframe template_columns source_df
             (filter (\<lambda>item. \<not> ?bad item) column_mapping)"
    by (simp only: eq skip)
  moreover have "map_of (columns (apply_items source_df column_mapping ?full)) (fst item) =
                   Some (replicate (index_len source_df) None)"
    if "item \<in> set column_mapping" "?bad item" "fst item \<in> set template_columns" for item
  proof -
    from that(1) have "map_of column_mapping (fst item) = Some (snd item)"
      by (simp add: map_of_eq_Some_iff[OF assms(2)])
    with that(2,3) show ?thesis
      by (simp add: map_of_apply_items[OF assms(2)] bad map_of_full)
  qed
  ultimately show ?thesis
    using eq by blast
qed

theorem create_mapped_dataframe_skips_witness:
  "wf_dataframe
     \<lparr>columns = [(Str ''name'', [Some (1 :: nat), None]), (Str ''amt'', [Some 3, Some 4])],
      index_len = 2\<rparr> \<and>
   distinct (map fst [(Str ''Name'', Some (Str ''zzz'')), (Str ''Amount'', Some (Str ''amt'')),
                      (Str ''Date'', None), (Str ''Code'', Some (Str ''''))]) \<and>
   create_mapped_dataframe [Str ''Name'', Str ''Amount'', Str ''Date'', Str ''Code'']
     \<lparr>columns = [(Str ''name'', [Some (1 :: nat), None]), (Str ''amt'', [Some 3, Some 4])],
      index_len = 2\<rparr>
     [(Str ''Name'', Some (Str ''zzz'')), (Str ''Amount'', Some (Str ''amt'')),
      (Str ''Date'', None), (Str ''Code'', Some (Str ''''))] =
   create_mapped_dataframe [Str ''Name'', Str ''Amount'', Str ''Date'', Str ''Code'']
     \<lparr>columns = [(Str ''name'', [Some (1 :: nat), None]), (Str ''amt'', [Some 3, Some 4])],
      index_len = 2\<rparr>
     [(Str ''Amount'', Some (Str ''amt''))] \<and>
   (\<exists>mapped_df.
      create_mapped_dataframe [Str ''Name'', Str ''Amount'', Str ''Date'', Str ''Code'']
        \<lparr>columns = [(Str ''name'', [Some (1 :: nat), None]), (Str ''amt'', [Some 3, Some 4])],
         index_len = 2\<rparr>
        [(Str ''Name'', Some (Str ''zzz'')), (Str ''Amount'', Some (Str ''amt'')),
         (Str ''Date'', None), (Str ''Code'', Some (Str ''''))] = Inr mapped_df \<and>
      map_of (columns mapped_df) (Str ''Name'') = Some [None, None] \<and>
      map_of (columns mapped_df) (Str ''Date'') = Some [None, None] \<and>
      map_of (columns mapped_df) (Str ''Code'') = Some [None, None])"
proof -
  let ?src = "\<lparr>columns = [(Str ''name'', [Some (1 :: nat), None]), (Str ''amt'', [Some 3, Some 4])],
               index_len = 2\<rparr>"
  let ?m = "[(Str ''Name'', Some (Str ''zzz'')), (Str ''Amount'', Some (Str ''amt'')),
             (Str ''Date'', None), (Str ''Code'', Some (Str ''''))]"
  let ?tcs = "[Str ''Name'', Str ''Amount'', Str ''Date'', Str ''Code'']"
  have wf: "wf_dataframe ?src" by (simp add: wf_dataframe_def labels_def)
  have d: "distinct (map fst ?m)" by simp
  have two: "replicate 2 None = [None, None :: nat option]" by (simp add: numeral_2_eq_2)
  note skips = create_mapped_dataframe_skips[OF wf d, of ?tcs]
  have a: "create_mapped_dataframe ?tcs ?src ?m =
          create_mapped_dataframe ?tcs ?src [(Str ''Amount'', Some (Str ''amt''))]"
    using skips[THEN conjunct1] by (simp add: labels_def truthy_def)
  have b: "\<exists>mapped_df.
          create_mapped_dataframe ?tcs ?src ?m = Inr mapped_df \<and>
          map_of (columns mapped_df) (Str ''Name'') = Some [None, None] \<and>
          map_of (columns mapped_df) (Str ''Date'') = Some [None, None] \<and>
          map_of (columns mapped_df) (Str ''Code'') = Some [None, None]"
    using skips[THEN conjunct2] by (simp add: labels_def truthy_def two)
  from a b wf d show ?thesis by blast
qed

text \<open>
  C2. A column mapping gives template columns a source column or none: its keys are
  template columns, as in the dictionary that \<^verbatim>\<open>main\<close> builds in its loop over
  \<^verbatim>\<open>mapper.template_columns\<close>. Its values are not restricted: \<open>None\<close>, a label of the
  source frame or any other label. For a source frame as loaded and every such mapping
  the reshaper returns a frame whose labels are the template columns in their order and
  that has as many rows as the source frame, in every column; so with no rows in the
  source the result has the template labels and no rows, and is no error.
\<close>

theorem create_mapped_dataframe_schema:
  fixes source_df :: "('c, 'v) dataframe"
  assumes "wf_dataframe source_df" and "fst ` set column_mapping \<subseteq> set template_columns"
  shows "\<exists>mapped_df.
           create_mapped_dataframe template_columns source_df column_mapping = Inr mapped_df \<and>
           labels mapped_df = template_columns \<and>
           index_len mapped_df = index_len source_df \<and>
           list_all (\<lambda>col. length (snd col) = index_len source_df) (columns mapped_df)"
proof -
  let ?full = "DataFrame_index_columns (index_len source_df) template_columns :: ('c, 'v) dataframe"
  let ?out = "apply_items source_df column_mapping ?full"
  have "labels ?out = template_columns"
    using labels_apply_items[of column_mapping ?full source_df] assms(2) by simp
  moreover have "index_len ?out = index_len source_df"
    by (simp add: DataFrame_index_columns_def)
  moreover have "list_all (\<lambda>col. length (snd col) = index_len source_df) (columns ?out)"
    by (rule lengths_apply_items[OF wf_lengths[OF assms(1)] lengths_full])
  ultimately show ?thesis
    using create_mapped_dataframe_eq[OF wf_lengths[OF assms(1)]] by blast
qed

theorem create_mapped_dataframe_schema_witness:
  "wf_dataframe \<lparr>columns = [(Str ''name'', [] :: nat option list), (Num 0, [])], index_len = 0\<rparr> \<and>
   fst ` set [(Str ''Amount'', Some (Num 0)), (Str ''Name'', Some (Str ''zzz''))] \<subseteq>
     set [Str ''Name'', Str ''Amount''] \<and>
   (\<exists>mapped_df.
      create_mapped_dataframe [Str ''Name'', Str ''Amount'']
        \<lparr>columns = [(Str ''name'', [] :: nat option list), (Num 0, [])], index_len = 0\<rparr>
        [(Str ''Amount'', Some (Num 0)), (Str ''Name'', Some (Str ''zzz''))] = Inr mapped_df \<and>
      labels mapped_df = [Str ''Name'', Str ''Amount''] \<and> index_len mapped_df = 0 \<and>
      list_all (\<lambda>col. length (snd col) = 0) (columns mapped_df)) \<and>
   wf_dataframe
     \<lparr>columns = [(Str ''name'', [Some (1 :: nat), None]), (Str ''amt'', [Some 3, Some 4])],
      index_len = 2\<rparr> \<and>
   (\<exists>mapped_df.
      create_mapped_dataframe [Str ''Name'', Str ''Amount'']
        \<lparr>columns = [(Str ''name'', [Some (1 :: nat), None]), (Str ''amt'', [Some 3, Some 4])],
         index_len = 2\<rparr>
        [(Str ''Amount'', Some (Str ''amt''))] = Inr mapped_df \<and>
      labels mapped_df = [Str ''Name'', Str ''Amount''] \<and> index_len mapped_df = 2 \<and>
      list_all (\<lambda>col. length (snd col) = 2) (columns mapped_df))"
proof -
  let ?src0 = "\<lparr>columns = [(Str ''name'', [] :: nat option list), (Num 0, [])], index_len = 0\<rparr>"
  let ?src2 = "\<lparr>columns = [(Str ''name'', [Some (1 :: nat), None]), (Str ''amt'', [Some 3, Some 4])],
                index_len = 2\<rparr>"
  have wf0: "wf_dataframe ?src0" by (simp add: wf_dataframe_def labels_def)
  have wf2: "wf_dataframe ?src2" by (simp add: wf_dataframe_def labels_def)
  have k0: "fst ` set [(Str ''Amount'', Some (Num 0)), (Str ''Name'', Some (Str ''zzz''))] \<subseteq>
              set [Str ''Name'', Str ''Amount'' :: char label]"
    by simp
  have k2: "fst ` set [(Str ''Amount'', Some (Str ''amt''))] \<subseteq> set [Str ''Name'', Str ''Amount'']"
    by simp
  from create_mapped_dataframe_schema[OF wf0 k0] create_mapped_dataframe_schema[OF wf2 k2]
    wf0 wf2 k0
  show ?thesis by simp
qed

section \<open>The mapping resolver\<close>

text \<open>
  The loop of \<^verbatim>\<open>main\<close> that builds \<open>final_mapping\<close>. Here a text is a \<open>string\<close>, for the
  sake of the literal \<^verbatim>\<open>"No mapping"\<close>; labels are only compared. A value of the AI
  mapping is a JSON value: \<^verbatim>\<open>null\<close>, a string, a number, a boolean, or anything else (a
  list, an object). \<open>ai_mapping\<close> is \<open>None\<close> while the session state has no
  \<^verbatim>\<open>ai_mapping\<close>. The keys of a decoded JSON object are texts, so
  \<^verbatim>\<open>.get(template_col, None)\<close> finds nothing for a label that is not a text, and it
  gives \<^verbatim>\<open>None\<close> for a missing key as for \<^verbatim>\<open>null\<close>.
\<close>

datatype jvalue = JNull | JString string | JNumber rat | JBool bool | JOther

definition suggested_for :: "(string \<rightharpoonup> jvalue) option \<Rightarrow> char label \<Rightarrow> jvalue" where
  "suggested_for ai_mapping template_col =
     (case ai_mapping of
        None \<Rightarrow> JNull
      | Some m \<Rightarrow>
          (case template_col of
             Str s \<Rightarrow> (case m s of None \<Rightarrow> JNull | Some v \<Rightarrow> v)
           | Num n \<Rightarrow> JNull
           | Other d \<Rightarrow> JNull))"

text \<open>
  The label that a JSON value is equal to, for Python's \<^verbatim>\<open>==\<close>: a string is equal to the
  text of the same characters, a number to the number of the same value, \<^verbatim>\<open>true\<close> to 1
  and \<^verbatim>\<open>false\<close> to 0; \<^verbatim>\<open>null\<close>, a list and an object are equal to no label.
\<close>

definition label_of :: "jvalue \<Rightarrow> char label option" where
  "label_of v =
     (case v of
        JNull \<Rightarrow> None
      | JString s \<Rightarrow> Some (Str s)
      | JNumber n \<Rightarrow> Some (Num n)
      | JBool b \<Rightarrow> Some (Num (if b then 1 else 0))
      | JOther \<Rightarrow> None)"

text \<open>
  \<^verbatim>\<open>options.index(suggested)\<close>, the first position of the element. Python raises
  \<^verbatim>\<open>ValueError\<close> for an element that is not in the list; the call stands under the guard
  \<^verbatim>\<open>suggested in mapper.source_columns\<close>.
\<close>

definition list_index :: "'a list \<Rightarrow> 'a \<Rightarrow> nat" where
  "list_index xs x = length (takeWhile (\<lambda>y. y \<noteq> x) xs)"

text \<open>
  \<^verbatim>\<open>if suggested and suggested in mapper.source_columns\<close>: the suggestion is true as a
  condition and equal to a source column. A JSON value that is equal to a label is true
  exactly when that label is.
\<close>

definition default_index_for :: "char label list \<Rightarrow> jvalue \<Rightarrow> nat" where
  "default_index_for source_columns suggested =
     (case label_of suggested of
        Some s \<Rightarrow>
          if truthy s \<and> s \<in> set source_columns
          then list_index (Str ''No mapping'' # source_columns) s else 0
      | None \<Rightarrow> 0)"

text \<open>
  \<^verbatim>\<open>st.selectbox(label, options, index=default_index, ...)\<close> returns the option the user
  picked in the widget, and the option at \<open>index\<close> when the user picked none.
\<close>

definition selectbox :: "char label list \<Rightarrow> nat \<Rightarrow> char label option \<Rightarrow> char label" where
  "selectbox options index choice = (case choice of None \<Rightarrow> options ! index | Some sel \<Rightarrow> sel)"

definition selected_for ::
  "char label list \<Rightarrow> (string \<rightharpoonup> jvalue) option \<Rightarrow> (char label \<rightharpoonup> char label) \<Rightarrow>
   char label \<Rightarrow> char label" where
  "selected_for source_columns ai_mapping choices template_col =
     (let suggested = suggested_for ai_mapping template_col;
          options = Str ''No mapping'' # source_columns;
          default_index = default_index_for source_columns suggested
      in selectbox options default_index (choices template_col))"

text \<open>
  \<open>final_mapping\<close> is a dictionary: the list of its items in insertion order, and
  \<^verbatim>\<open>final_mapping[template_col] = selected\<close> is \<open>AList.update\<close>.
\<close>

fun final_mapping_loop ::
  "char label list \<Rightarrow> char label list \<Rightarrow> (string \<rightharpoonup> jvalue) option \<Rightarrow>
   (char label \<rightharpoonup> char label) \<Rightarrow> (char label \<times> char label) list \<Rightarrow>
   (char label \<times> char label) list" where
  "final_mapping_loop [] source_columns ai_mapping choices final_mapping = final_mapping"
| "final_mapping_loop (template_col # rest) source_columns ai_mapping choices final_mapping =
     (let selected = selected_for source_columns ai_mapping choices template_col
      in final_mapping_loop rest source_columns ai_mapping choices
           (if selected \<noteq> Str ''No mapping''
            then AList.update template_col selected final_mapping
            else final_mapping))"

definition resolve_mapping ::
  "char label list \<Rightarrow> char label list \<Rightarrow> (string \<rightharpoonup> jvalue) option \<Rightarrow>
   (char label \<rightharpoonup> char label) \<Rightarrow> (char label \<times> char label) list" where
  "resolve_mapping template_columns source_columns ai_mapping choices =
     final_mapping_loop template_columns source_columns ai_mapping choices []"

text \<open>The dictionary handed to \<^verbatim>\<open>create_mapped_dataframe\<close>: every value is a label.\<close>

definition as_column_mapping :: "('c label \<times> 'c label) list \<Rightarrow> ('c label \<times> 'c label option) list" where
  "as_column_mapping final_mapping = map (\<lambda>item. (fst item, Some (snd item))) final_mapping"

lemma final_mapping_loop_lookup:
  "map_of (final_mapping_loop tcs scs ai choices fm) tc =
     (if tc \<in> set tcs \<and> selected_for scs ai choices tc \<noteq> Str ''No mapping''
      then Some (selected_for scs ai choices tc) else map_of fm tc)"
  by (induction tcs arbitrary: fm) (auto simp: Let_def update_conv)

lemma final_mapping_loop_distinct:
  "distinct (map fst fm) \<Longrightarrow> distinct (map fst (final_mapping_loop tcs scs ai choices fm))"
  by (induction tcs arbitrary: fm) (auto simp: Let_def distinct_update)

lemma resolve_mapping_lookup:
  "map_of (resolve_mapping tcs scs ai choices) tc =
     (if tc \<in> set tcs \<and> selected_for scs ai choices tc \<noteq> Str ''No mapping''
      then Some (selected_for scs ai choices tc) else None)"
  by (simp add: resolve_mapping_def final_mapping_loop_lookup)

lemma resolve_mapping_distinct: "distinct (map fst (resolve_mapping tcs scs ai choices))"
  by (simp add: resolve_mapping_def final_mapping_loop_distinct)

text \<open>The keys of the resolver's mapping are template columns.\<close>

lemma resolve_mapping_keys:
  "fst ` set (resolve_mapping tcs scs ai choices) \<subseteq> set tcs"
proof
  fix tc assume "tc \<in> fst ` set (resolve_mapping tcs scs ai choices)"
  then have "map_of (resolve_mapping tcs scs ai choices) tc \<noteq> None"
    by (simp add: map_of_eq_None_iff)
  then show "tc \<in> set tcs"
    by (auto simp: resolve_mapping_lookup split: if_splits)
qed

lemma nth_list_index: "x \<in> set xs \<Longrightarrow> xs ! list_index xs x = x"
  unfolding list_index_def by (induction xs) auto

lemma default_index_for_option:
  "(Str ''No mapping'' # scs) ! default_index_for scs v \<in> set (Str ''No mapping'' # scs)"
proof (cases "label_of v")
  case None
  then show ?thesis by (simp add: default_index_for_def)
next
  case (Some s)
  show ?thesis
  proof (cases "truthy s \<and> s \<in> set scs")
    case True
    then have "(Str ''No mapping'' # scs) ! list_index (Str ''No mapping'' # scs) s = s"
      by (intro nth_list_index) simp
    with True Some show ?thesis by (simp add: default_index_for_def)
  next
    case False
    with Some show ?thesis by (auto simp: default_index_for_def)
  qed
qed

lemma selected_for_option:
  assumes "\<forall>sel. choices tc = Some sel \<longrightarrow> sel \<in> set (Str ''No mapping'' # scs)"
  shows "selected_for scs ai choices tc \<in> set (Str ''No mapping'' # scs)"
proof (cases "choices tc")
  case (Some sel)
  with assms show ?thesis by (simp add: selected_for_def selectbox_def)
next
  case None
  with default_index_for_option[of scs "suggested_for ai tc"] show ?thesis
    by (simp add: selected_for_def selectbox_def Let_def)
qed

lemma map_of_as_column_mapping:
  "map_of (as_column_mapping fm) tc = map_option Some (map_of fm tc)"
  by (induction fm) (auto simp: as_column_mapping_def)

lemma fst_as_column_mapping [simp]: "map fst (as_column_mapping fm) = map fst fm"
  by (simp add: as_column_mapping_def comp_def)

lemma map_of_label:
  assumes "s \<in> set (labels df)"
  shows "\<exists>vals. map_of (columns df) s = Some vals"
  using assms unfolding labels_def
  by (metis domIff dom_map_of_conv_image_fst not_Some_eq set_map)

text \<open>
  Where the template columns are distinct, every label of the source frame is true as a
  condition (no empty text, no number \<open>0\<close>), and every choice made in a widget is one of
  its options, the reshaper fills the resolver's mapping in: every template column that the mapping sends to a source column
  holds that column's list of values, so row \<open>i\<close> comes from row \<open>i\<close>, and every template
  column without a mapping holds the missing marker in each of the source's rows.
\<close>

lemma create_mapped_dataframe_fills_truthy:
  fixes source_df :: "(char, 'v) dataframe"
  assumes "wf_dataframe source_df" and "distinct template_columns"
    and "\<forall>s \<in> set (labels source_df). truthy s"
    and "\<forall>template_col sel. choices template_col = Some sel \<longrightarrow>
           sel \<in> set (Str ''No mapping'' # labels source_df)"
  shows "\<exists>mapped_df.
           create_mapped_dataframe template_columns source_df
             (as_column_mapping
                (resolve_mapping template_columns (labels source_df) ai_mapping choices)) =
             Inr mapped_df \<and>
           (\<forall>template_col \<in> set template_columns.
              case map_of (resolve_mapping template_columns (labels source_df) ai_mapping choices)
                     template_col of
                Some source_col \<Rightarrow>
                  \<exists>vals. map_of (columns source_df) source_col = Some vals \<and>
                         length vals = index_len source_df \<and>
                         map_of (columns mapped_df) template_col = Some vals \<and>
                         (\<forall>i < index_len source_df.
                            the (map_of (columns mapped_df) template_col) ! i = vals ! i)
              | None \<Rightarrow>
                  map_of (columns mapped_df) template_col =
                    Some (replicate (index_len source_df) None))"
proof -
  let ?fm = "resolve_mapping template_columns (labels source_df) ai_mapping choices"
  let ?full = "DataFrame_index_columns (index_len source_df) template_columns :: (char, 'v) dataframe"
  let ?out = "apply_items source_df (as_column_mapping ?fm) ?full"
  have d: "distinct (map fst (as_column_mapping ?fm))"
    by (simp add: resolve_mapping_distinct)
  have lookup: "map_of (columns ?out) tc =
     (case map_of ?fm tc of
        Some s \<Rightarrow> if passes_guard source_df (Some s)
                  then Some (the (map_of (columns source_df) s))
                  else map_of (columns ?full) tc
      | None \<Rightarrow> map_of (columns ?full) tc)" for tc
    by (simp add: map_of_apply_items[OF d] map_of_as_column_mapping split: option.splits)
  have col: "case map_of ?fm tc of
                Some source_col \<Rightarrow>
                  \<exists>vals. map_of (columns source_df) source_col = Some vals \<and>
                         length vals = index_len source_df \<and>
                         map_of (columns ?out) tc = Some vals \<and>
                         (\<forall>i < index_len source_df.
                            the (map_of (columns ?out) tc) ! i = vals ! i)
              | None \<Rightarrow> map_of (columns ?out) tc = Some (replicate (index_len source_df) None)"
    if tc: "tc \<in> set template_columns" for tc
  proof (cases "map_of ?fm tc")
    case None
    with tc show ?thesis by (simp add: lookup map_of_full)
  next
    case (Some s)
    then have sel: "selected_for (labels source_df) ai_mapping choices tc = s"
      and nm: "s \<noteq> Str ''No mapping''"
      by (auto simp: resolve_mapping_lookup split: if_splits)
    from assms(4) have "selected_for (labels source_df) ai_mapping choices tc
                          \<in> set (Str ''No mapping'' # labels source_df)"
      by (intro selected_for_option) simp
    with sel nm have s_in: "s \<in> set (labels source_df)" by simp
    with assms(3) have s_ne: "truthy s" by simp
    from s_in s_ne have g: "passes_guard source_df (Some s)" by (simp add: passes_guard_def)
    from map_of_label[OF s_in] obtain vals where v: "map_of (columns source_df) s = Some vals"
      by blast
    have "length vals = index_len source_df"
      using column_length[OF wf_lengths[OF assms(1)] s_in] v by simp
    with Some g v show ?thesis by (simp add: lookup)
  qed
  have "create_mapped_dataframe template_columns source_df (as_column_mapping ?fm) = Inr ?out"
    by (rule create_mapped_dataframe_eq[OF wf_lengths[OF assms(1)]])
  with col show ?thesis by blast
qed

text \<open>
  C1. A sheet whose header row holds the text \<^verbatim>\<open>Item\<close> and the number \<^verbatim>\<open>0\<close>:
  \<^verbatim>\<open>read_excel\<close> labels the second column with the number 0. The user picks the columns
  in the two widgets, and the resolver maps \<^verbatim>\<open>Item\<close> to \<^verbatim>\<open>Item\<close> and \<^verbatim>\<open>Amount\<close> to the
  column 0, which exists in the source and holds 5 and 7. In the reshaper the condition
  \<^verbatim>\<open>source_col and source_col in self.source_df.columns\<close> is false for the label 0: the
  result holds the values of \<^verbatim>\<open>Item\<close>, but the missing marker in both rows of
  \<^verbatim>\<open>Amount\<close>, not 5 and 7.
\<close>

theorem create_mapped_dataframe_falsy_label:
  "wf_dataframe
     \<lparr>columns = [(Str ''Item'', [Some (1 :: nat), Some 2]), (Num 0, [Some 5, Some 7])],
      index_len = 2\<rparr> \<and>
   labels \<lparr>columns = [(Str ''Item'', [Some (1 :: nat), Some 2]), (Num 0, [Some 5, Some 7])],
           index_len = 2\<rparr> = [Str ''Item'', Num 0] \<and>
   resolve_mapping [Str ''Item'', Str ''Amount''] [Str ''Item'', Num 0] None
     [Str ''Item'' \<mapsto> Str ''Item'', Str ''Amount'' \<mapsto> Num 0] =
     [(Str ''Item'', Str ''Item''), (Str ''Amount'', Num 0)] \<and>
   getitem_values
     \<lparr>columns = [(Str ''Item'', [Some (1 :: nat), Some 2]), (Num 0, [Some 5, Some 7])],
      index_len = 2\<rparr> (Num 0) = Inr [Some 5, Some 7] \<and>
   create_mapped_dataframe [Str ''Item'', Str ''Amount'']
     \<lparr>columns = [(Str ''Item'', [Some (1 :: nat), Some 2]), (Num 0, [Some 5, Some 7])],
      index_len = 2\<rparr>
     (as_column_mapping [(Str ''Item'', Str ''Item''), (Str ''Amount'', Num 0)]) =
     Inr \<lparr>columns = [(Str ''Item'', [Some 1, Some 2]), (Str ''Amount'', [None, None])],
          index_len = 2\<rparr>"
proof -
  let ?src = "\<lparr>columns = [(Str ''Item'', [Some (1 :: nat), Some 2]), (Num 0, [Some 5, Some 7])],
               index_len = 2\<rparr>"
  have wf: "wf_dataframe ?src" by (simp add: wf_dataframe_def labels_def)
  have l: "labels ?src = [Str ''Item'', Num 0]" by (simp add: labels_def)
  have r: "resolve_mapping [Str ''Item'', Str ''Amount''] [Str ''Item'', Num 0] None
             [Str ''Item'' \<mapsto> Str ''Item'', Str ''Amount'' \<mapsto> Num 0] =
             [(Str ''Item'', Str ''Item''), (Str ''Amount'', Num 0)]"
    by (simp add: resolve_mapping_def selected_for_def suggested_for_def default_index_for_def
        selectbox_def list_index_def label_of_def Let_def)
  have g: "getitem_values ?src (Num 0) = Inr [Some 5, Some 7]"
    by (simp add: getitem_values_def)
  have c: "create_mapped_dataframe [Str ''Item'', Str ''Amount''] ?src
             (as_column_mapping [(Str ''Item'', Str ''Item''), (Str ''Amount'', Num 0)]) =
           Inr \<lparr>columns = [(Str ''Item'', [Some 1, Some 2]), (Str ''Amount'', [None, None])],
                index_len = 2\<rparr>"
    by (simp add: as_column_mapping_def create_mapped_dataframe_def DataFrame_columns_def
        DataFrame_index_columns_def getitem_values_def setitem_def ensure_valid_index_def
        set_column_def labels_def truthy_def Let_def numeral_2_eq_2)
  from wf l r g c show ?thesis by (simp only: simp_thms)
qed

text \<open>
  What the resolver chooses, as long as no source column carries the name that the widget
  uses for "no mapping": the user's choice if there is one, else the AI suggestion if it
  is true as a condition and equal to a source column, else nothing.
\<close>

lemma resolve_mapping_priority:
  assumes "Str ''No mapping'' \<notin> set source_columns"
  shows "map_of (resolve_mapping template_columns source_columns ai_mapping choices) template_col =
     (if template_col \<in> set template_columns then
        (case choices template_col of
           Some sel \<Rightarrow> if sel = Str ''No mapping'' then None else Some sel
         | None \<Rightarrow>
             (case label_of (suggested_for ai_mapping template_col) of
                Some s \<Rightarrow> if truthy s \<and> s \<in> set source_columns then Some s else None
              | None \<Rightarrow> None))
      else None)"
proof -
  have idx: "(Str ''No mapping'' # source_columns) !
               list_index (Str ''No mapping'' # source_columns) s = s"
    if "s \<in> set source_columns" for s
    using that by (intro nth_list_index) simp
  have "selected_for source_columns ai_mapping choices template_col =
          (case choices template_col of
             Some sel \<Rightarrow> sel
           | None \<Rightarrow>
               (case label_of (suggested_for ai_mapping template_col) of
                  Some s \<Rightarrow> if truthy s \<and> s \<in> set source_columns then s else Str ''No mapping''
                | None \<Rightarrow> Str ''No mapping''))"
    by (auto simp: selected_for_def selectbox_def default_index_for_def Let_def idx
        split: option.splits)
  with assms show ?thesis
    by (auto simp: resolve_mapping_lookup split: option.splits)
qed

text \<open>
  C3. A source column named \<^verbatim>\<open>No mapping\<close> can not be chosen: suggested by the AI for
  \<^verbatim>\<open>Item\<close>, with no choice made in the widget, it leaves \<^verbatim>\<open>Item\<close> without a mapping,
  and so does the user's own choice of that column.
\<close>

theorem resolve_mapping_no_mapping_column:
  "resolve_mapping [Str ''Item''] [Str ''Qty'', Str ''No mapping'']
     (Some [''Item'' \<mapsto> JString ''No mapping'']) Map.empty = [] \<and>
   resolve_mapping [Str ''Item''] [Str ''Qty'', Str ''No mapping''] None
     [Str ''Item'' \<mapsto> Str ''No mapping''] = []"
  by (simp add: resolve_mapping_def selected_for_def suggested_for_def default_index_for_def
      selectbox_def list_index_def label_of_def truthy_def Let_def)

section \<open>The AI suggestion adapter\<close>

text \<open>
  \<^verbatim>\<open>str.find\<close> and \<^verbatim>\<open>str.rfind\<close> for one character (\<open>-1\<close> when it does not occur), and
  the slice \<^verbatim>\<open>s[start:end]\<close> for indices that are not negative.
\<close>

definition str_find :: "string \<Rightarrow> char \<Rightarrow> int" where
  "str_find s c = (if c \<in> set s then int (length (takeWhile (\<lambda>x. x \<noteq> c) s)) else - 1)"

definition str_rfind :: "string \<Rightarrow> char \<Rightarrow> int" where
  "str_rfind s c =
     (if c \<in> set s then int (length s) - 1 - int (length (takeWhile (\<lambda>x. x \<noteq> c) (rev s)))
      else - 1)"

definition str_slice :: "string \<Rightarrow> int \<Rightarrow> int \<Rightarrow> string" where
  "str_slice s start_idx end_idx = take (nat (end_idx - start_idx)) (drop (nat start_idx) s)"

text \<open>
  The inner \<^verbatim>\<open>try\<close> of \<^verbatim>\<open>get_ai_column_mapping\<close>. \<open>json_loads\<close> is \<^verbatim>\<open>json.loads\<close>: the
  decoded object or the exception it raises. \<^verbatim>\<open>except json.JSONDecodeError\<close> returns the
  empty dictionary; any other exception leaves the block.
\<close>

definition parse_ai_response ::
  "(string \<Rightarrow> error + (string \<rightharpoonup> jvalue)) \<Rightarrow> string \<Rightarrow> error + (string \<rightharpoonup> jvalue)" where
  "parse_ai_response json_loads ai_response =
     (let start_idx = str_find ai_response CHR ''{'';
          end_idx = str_rfind ai_response CHR ''}'' + 1
      in if start_idx \<noteq> - 1 \<and> end_idx \<noteq> - 1 then
           (case json_loads (str_slice ai_response start_idx end_idx) of
              Inl JSONDecodeError \<Rightarrow> Inr Map.empty
            | Inl e \<Rightarrow> Inl e
            | Inr ai_mapping \<Rightarrow> Inr ai_mapping)
         else Inr Map.empty)"

text \<open>
  The outer \<^verbatim>\<open>try\<close>. \<open>chat\<close> is the outcome of \<^verbatim>\<open>ollama.chat(...)\<close> and of reading
  \<^verbatim>\<open>response['message']['content']\<close>: the text, or the exception raised on the way.
  \<^verbatim>\<open>except Exception\<close> returns the empty dictionary.
\<close>

definition get_ai_column_mapping ::
  "error + string \<Rightarrow> (string \<Rightarrow> error + (string \<rightharpoonup> jvalue)) \<Rightarrow> error + (string \<rightharpoonup> jvalue)" where
  "get_ai_column_mapping chat json_loads =
     (case (case chat of
              Inl e \<Rightarrow> Inl e
            | Inr ai_response \<Rightarrow> parse_ai_response json_loads ai_response) of
        Inl e \<Rightarrow> Inr Map.empty
      | Inr ai_mapping \<Rightarrow> Inr ai_mapping)"

text \<open>
  The span the code decodes, described on its own: the response from its first \<^verbatim>\<open>{\<close> up
  to its last \<^verbatim>\<open>}\<close>, empty when no \<^verbatim>\<open>}\<close> follows the first \<^verbatim>\<open>{\<close>.
\<close>

definition first_to_last_span :: "string \<Rightarrow> string" where
  "first_to_last_span s =
     rev (dropWhile (\<lambda>c. c \<noteq> CHR ''}'') (rev (dropWhile (\<lambda>c. c \<noteq> CHR ''{'') s)))"

text \<open>
  The span in the words of the specification, "the first balanced structured-object
  span": from the first \<^verbatim>\<open>{\<close> to the \<^verbatim>\<open>}\<close> that closes it.
\<close>

fun take_balanced :: "nat \<Rightarrow> string \<Rightarrow> string option" where
  "take_balanced depth [] = None"
| "take_balanced depth (c # cs) =
     (if c = CHR ''{'' then map_option ((#) c) (take_balanced (Suc depth) cs)
      else if c = CHR ''}'' then
        (if depth \<le> 1 then Some [c] else map_option ((#) c) (take_balanced (depth - 1) cs))
      else map_option ((#) c) (take_balanced depth cs))"

definition spec_first_balanced_span :: "string \<Rightarrow> string option" where
  "spec_first_balanced_span s = take_balanced 0 (dropWhile (\<lambda>c. c \<noteq> CHR ''{'') s)"

lemma str_slice_span:
  assumes "CHR ''{'' \<in> set s"
  shows "str_slice s (str_find s CHR ''{'') (str_rfind s CHR ''}'' + 1) = first_to_last_span s"
proof -
  let ?P = "\<lambda>c. c \<noteq> CHR ''{''" and ?Q = "\<lambda>c. c \<noteq> CHR ''}''"
  define u where "u = takeWhile ?P s"
  define t where "t = dropWhile ?P s"
  have s: "s = u @ t" by (simp add: u_def t_def)
  have start: "str_find s CHR ''{'' = int (length u)"
    using assms by (simp add: str_find_def u_def)
  have dr: "drop (length u) s = t" by (simp add: s)
  have rhs: "first_to_last_span s = rev (dropWhile ?Q (rev t))"
    by (simp add: first_to_last_span_def t_def)
  show ?thesis
  proof (cases "CHR ''}'' \<in> set t")
    case True
    then have tw: "takeWhile ?Q (rev s) = takeWhile ?Q (rev t)"
      by (auto simp: s intro!: takeWhile_append1[where x = "CHR ''}''"])
    define k where "k = length (takeWhile ?Q (rev t))"
    have kle: "k \<le> length t"
      unfolding k_def by (metis length_rev length_takeWhile_le)
    from True have "CHR ''}'' \<in> set s" by (simp add: s)
    then have "str_rfind s CHR ''}'' + 1 = int (length s) - int k"
      by (simp add: str_rfind_def tw k_def)
    moreover have "length s = length u + length t" by (simp add: s)
    ultimately have e: "str_rfind s CHR ''}'' + 1 = int (length u) + int (length t) - int k"
      by simp
    have "nat (int (length u) + int (length t) - int k - int (length u)) = length t - k"
      using kle by simp
    then have "str_slice s (str_find s CHR ''{'') (str_rfind s CHR ''}'' + 1) =
                 take (length t - k) t"
      unfolding str_slice_def start e by (simp add: dr)
    moreover have "rev (dropWhile ?Q (rev t)) = take (length t - k) t"
      by (simp add: dropWhile_eq_drop k_def rev_drop)
    ultimately show ?thesis by (simp add: rhs)
  next
    case False
    then have r: "rev (dropWhile ?Q (rev t)) = []" by auto
    have "str_rfind s CHR ''}'' + 1 \<le> int (length u)"
    proof (cases "CHR ''}'' \<in> set s")
      case True
      have "takeWhile ?Q (rev s) = rev t @ takeWhile ?Q (rev u)"
        using False by (auto simp: s intro!: takeWhile_append2)
      with True show ?thesis by (simp add: str_rfind_def s)
    next
      case False
      then show ?thesis by (simp add: str_rfind_def)
    qed
    then have "str_slice s (str_find s CHR ''{'') (str_rfind s CHR ''}'' + 1) = []"
      by (simp add: str_slice_def start)
    with r show ?thesis by (simp add: rhs)
  qed
qed

text \<open>
  C6. The adapter never raises. When the call or the reading of the response raises, the
  result is the empty mapping. For a response text, the span from its first \<^verbatim>\<open>{\<close> to its
  last \<^verbatim>\<open>}\<close> is decoded: the result is the decoded mapping, and the empty mapping when
  the text has no \<^verbatim>\<open>{\<close> or the decoding raises.
\<close>

theorem get_ai_column_mapping_never_raises:
  "(\<exists>ai_mapping. get_ai_column_mapping chat json_loads = Inr ai_mapping) \<and>
   (\<forall>e. chat = Inl e \<longrightarrow> get_ai_column_mapping chat json_loads = Inr Map.empty) \<and>
   (\<forall>ai_response. chat = Inr ai_response \<longrightarrow>
      get_ai_column_mapping chat json_loads =
        (if CHR ''{'' \<in> set ai_response then
           (case json_loads (first_to_last_span ai_response) of
              Inl e \<Rightarrow> Inr Map.empty
            | Inr ai_mapping \<Rightarrow> Inr ai_mapping)
         else Inr Map.empty))"
proof (intro conjI allI impI)
  show "\<exists>ai_mapping. get_ai_column_mapping chat json_loads = Inr ai_mapping"
    by (auto simp: get_ai_column_mapping_def split: sum.splits)
next
  fix e assume "chat = Inl e"
  then show "get_ai_column_mapping chat json_loads = Inr Map.empty"
    by (simp add: get_ai_column_mapping_def)
next
  fix ai_response assume chat: "chat = Inr ai_response"
  show "get_ai_column_mapping chat json_loads =
        (if CHR ''{'' \<in> set ai_response then
           (case json_loads (first_to_last_span ai_response) of
              Inl e \<Rightarrow> Inr Map.empty
            | Inr ai_mapping \<Rightarrow> Inr ai_mapping)
         else Inr Map.empty)"
  proof (cases "CHR ''{'' \<in> set ai_response")
    case False
    then have "str_find ai_response CHR ''{'' = - 1" by (simp add: str_find_def)
    with False chat show ?thesis
      by (simp add: get_ai_column_mapping_def parse_ai_response_def Let_def)
  next
    case True
    then have a: "str_find ai_response CHR ''{'' \<noteq> - 1" by (simp add: str_find_def)
    have b: "str_rfind ai_response CHR ''}'' + 1 \<noteq> - 1"
    proof -
      have "length (takeWhile (\<lambda>x. x \<noteq> CHR ''}'') (rev ai_response)) \<le> length ai_response"
        by (metis length_rev length_takeWhile_le)
      then show ?thesis by (simp add: str_rfind_def)
    qed
    from True a b chat show ?thesis
      by (simp add: get_ai_column_mapping_def parse_ai_response_def Let_def str_slice_span
          split: sum.splits error.splits)
  qed
qed

theorem get_ai_column_mapping_never_raises_witness:
  "get_ai_column_mapping (Inl Exception) (\<lambda>s. Inl JSONDecodeError) = Inr Map.empty \<and>
   CHR ''{'' \<in> set ''Sure: {oops} done'' \<and>
   first_to_last_span ''Sure: {oops} done'' = ''{oops}'' \<and>
   get_ai_column_mapping (Inr ''Sure: {oops} done'') (\<lambda>s. Inl JSONDecodeError) = Inr Map.empty"
proof -
  have sp: "first_to_last_span ''Sure: {oops} done'' = ''{oops}''"
    by (simp add: first_to_last_span_def)
  have "get_ai_column_mapping (Inl Exception) (\<lambda>s. Inl JSONDecodeError) = Inr Map.empty"
    using get_ai_column_mapping_never_raises[of "Inl Exception" "\<lambda>s. Inl JSONDecodeError"]
    by simp
  moreover have "get_ai_column_mapping (Inr ''Sure: {oops} done'') (\<lambda>s. Inl JSONDecodeError) =
                   Inr Map.empty"
    using get_ai_column_mapping_never_raises[of "Inr ''Sure: {oops} done''"
        "\<lambda>s. Inl JSONDecodeError"]
    by simp
  ultimately show ?thesis using sp by simp
qed

text \<open>
  A response with two objects. The first balanced span is the first object, which
  \<^verbatim>\<open>json.loads\<close> decodes; the code decodes the text from the first \<^verbatim>\<open>{\<close> to the last
  \<^verbatim>\<open>}\<close>, here the whole response, on which \<^verbatim>\<open>json.loads\<close> raises (extra data), and returns
  the empty mapping. The decoder in the statement is \<^verbatim>\<open>json.loads\<close> on these two texts.
\<close>

theorem get_ai_column_mapping_span_counterexample:
  "spec_first_balanced_span ''{\"A\": \"a\"} {\"B\": \"b\"}'' = Some ''{\"A\": \"a\"}'' \<and>
   str_slice ''{\"A\": \"a\"} {\"B\": \"b\"}''
     (str_find ''{\"A\": \"a\"} {\"B\": \"b\"}'' CHR ''{'')
     (str_rfind ''{\"A\": \"a\"} {\"B\": \"b\"}'' CHR ''}'' + 1) =
     ''{\"A\": \"a\"} {\"B\": \"b\"}'' \<and>
   get_ai_column_mapping (Inr ''{\"A\": \"a\"} {\"B\": \"b\"}'')
     (\<lambda>s. if s = ''{\"A\": \"a\"}'' then Inr [''A'' \<mapsto> JString ''a'']
          else Inl JSONDecodeError) = Inr Map.empty"
  by (simp add: spec_first_balanced_span_def str_slice_def str_find_def str_rfind_def
      get_ai_column_mapping_def parse_ai_response_def Let_def)

end
